theory Spec2Isabelle
  imports Main "HOL-Library.Multiset"
begin

section \<open>The fragment of Python's \<open>re\<close> that the analyzer uses\<close>

text \<open>
  Every pattern of \<open>tools/analyze_code.py\<close> is a flat sequence of single-character
  classes, each with a quantifier, and every capture group encloses exactly one such item.
  A pattern is therefore a list of atoms. Text is a list of characters (code points below
  256); the classes \<open>\s\<close> and \<open>\w\<close> are those of a Python 3 \<open>str\<close> pattern on that
  range.
\<close>

datatype quant = One | Opt | Star | Plus | Lazy_Star

datatype atom = Atom (cls: "char \<Rightarrow> bool") (qnt: quant) (grp: bool)

type_synonym pattern = "atom list"

text \<open>
  The repetition counts a quantifier tries, in the order of the backtracking search, where
  \<open>n\<close> is the length of the longest run of characters of the class at the cursor:
  greedy quantifiers start from the longest run, the lazy one from the empty run.
\<close>

fun counts :: "quant \<Rightarrow> nat \<Rightarrow> nat list" where
  "counts One n = (if 1 \<le> n then [1] else [])"
| "counts Opt n = (if 1 \<le> n then [1, 0] else [0])"
| "counts Star n = rev [0..<Suc n]"
| "counts Plus n = rev [1..<Suc n]"
| "counts Lazy_Star n = [0..<Suc n]"

fun first_some :: "('a \<Rightarrow> 'b option) \<Rightarrow> 'a list \<Rightarrow> 'b option" where
  "first_some f [] = None"
| "first_some f (x # xs) = (case f x of Some y \<Rightarrow> Some y | None \<Rightarrow> first_some f xs)"

text \<open>
  \<open>match_here adv p moved s\<close> matches the pattern \<open>p\<close> at the start of \<open>s\<close> and
  returns the captured groups with the text left after the match. \<open>adv\<close> is the engine's
  must-advance flag (set by an iterated search after an empty match): with it, a match
  that consumed nothing (\<open>moved\<close> is false at the end) is rejected and the search
  backtracks.
\<close>

primrec match_here :: "bool \<Rightarrow> pattern \<Rightarrow> bool \<Rightarrow> string \<Rightarrow> (string list \<times> string) option" where
  "match_here adv [] moved s = (if adv \<and> \<not> moved then None else Some ([], s))"
| "match_here adv (a # as) moved s =
     first_some
       (\<lambda>k. case match_here adv as (moved \<or> 0 < k) (drop k s) of
              None \<Rightarrow> None
            | Some (gs, r) \<Rightarrow> Some (if grp a then take k s # gs else gs, r))
       (counts (qnt a) (length (takeWhile (cls a) s)))"

text \<open>
  A match object: where the match starts, its groups (group 0, the whole match, first)
  and the text after the match.
\<close>

type_synonym rmatch = "nat \<times> string list \<times> string"

fun search_at :: "pattern \<Rightarrow> bool \<Rightarrow> nat \<Rightarrow> string \<Rightarrow> rmatch option" where
  "search_at p adv pos s =
     (case match_here adv p False s of
        Some (gs, r) \<Rightarrow> Some (pos, take (length s - length r) s # gs, r)
      | None \<Rightarrow> (case s of [] \<Rightarrow> None | c # cs \<Rightarrow> search_at p False (Suc pos) cs))"

definition re_search :: "pattern \<Rightarrow> string \<Rightarrow> rmatch option" where
  "re_search p s = search_at p False 0 s"

subsection \<open>Basic facts about the matcher\<close>

lemma first_some_SomeD:
  "first_some f xs = Some y \<Longrightarrow> \<exists>x\<in>set xs. f x = Some y"
  by (induction xs) (auto split: option.splits)

lemma first_some_None_iff:
  "first_some f xs = None \<longleftrightarrow> (\<forall>x\<in>set xs. f x = None)"
  by (induction xs) (auto split: option.splits)

lemma counts_le: "k \<in> set (counts q n) \<Longrightarrow> k \<le> n"
  by (cases q) (auto split: if_splits)

lemma match_here_rest:
  "match_here adv p moved s = Some (gs, r) \<Longrightarrow>
     length r \<le> length s \<and> (adv \<longrightarrow> moved \<or> length r < length s)"
proof (induction p arbitrary: moved s gs r)
  case Nil
  then show ?case by (auto split: if_splits)
next
  case (Cons a as)
  from Cons.prems obtain k gs' where k: "k \<in> set (counts (qnt a) (length (takeWhile (cls a) s)))"
    and m: "match_here adv as (moved \<or> 0 < k) (drop k s) = Some (gs', r)"
    by (auto dest!: first_some_SomeD split: option.splits)
  have "k \<le> length s"
    using counts_le [OF k] length_takeWhile_le [of "cls a" s] by simp
  with Cons.IH [OF m] show ?case by auto
qed

lemma search_at_bounds:
  "search_at p adv pos s = Some (i, gs, r) \<Longrightarrow>
     pos \<le> i \<and> length r + (i - pos) \<le> length s \<and> (adv \<and> i = pos \<longrightarrow> length r < length s)"
proof (induction s arbitrary: adv pos)
  case Nil
  then show ?case
    by (auto simp: search_at.simps [of _ _ _ "[]"] split: option.splits dest: match_here_rest)
next
  case (Cons c cs)
  show ?case
  proof (cases "match_here adv p False (c # cs)")
    case None
    with Cons.prems have "search_at p False (Suc pos) cs = Some (i, gs, r)" by simp
    from Cons.IH [OF this] show ?thesis by auto
  next
    case (Some m)
    with Cons.prems show ?thesis
      by (cases m) (auto dest: match_here_rest)
  qed
qed

declare search_at.simps [simp del]

text \<open>
  \<open>re.finditer\<close>: the matches from left to right, each search starting where the
  previous match ended; after an empty match the next search must advance.
\<close>

function finditer_from :: "pattern \<Rightarrow> bool \<Rightarrow> nat \<Rightarrow> string \<Rightarrow> rmatch list" where
  "finditer_from p adv pos s =
     (case search_at p adv pos s of
        None \<Rightarrow> []
      | Some (i, gs, r) \<Rightarrow>
          (i, gs, r) # finditer_from p (length s - (i - pos) = length r) (pos + (length s - length r)) r)"
  by pat_completeness auto
termination
  apply (relation "measures [\<lambda>(p, adv, pos, s). length s, \<lambda>(p, adv, pos, s). if adv then 0 else 1]")
   apply simp
  apply (auto dest!: search_at_bounds)
  done

declare finditer_from.simps [simp del]

definition finditer :: "pattern \<Rightarrow> string \<Rightarrow> rmatch list" where
  "finditer p s = finditer_from p False 0 s"

text \<open>
  \<open>re.findall\<close> for a pattern with at most one group (its only call site has one):
  the group of each match, or the whole match when the pattern has no group.
\<close>

definition findall :: "pattern \<Rightarrow> string \<Rightarrow> string list" where
  "findall p s =
     map (\<lambda>(i, gs, r). case gs of [] \<Rightarrow> [] | [w] \<Rightarrow> w | w # g # _ \<Rightarrow> g) (finditer p s)"

section \<open>The patterns of the analyzer\<close>

definition is_space :: "char \<Rightarrow> bool" where
  \<comment> \<open>\<open>\s\<close>: what \<open>str.isspace\<close> accepts\<close>
  "is_space c =
     (let n = (of_char c :: nat)
      in (9 \<le> n \<and> n \<le> 13) \<or> (28 \<le> n \<and> n \<le> 32) \<or> n = 133 \<or> n = 160)"

definition is_word :: "char \<Rightarrow> bool" where
  \<comment> \<open>\<open>\w\<close>: what \<open>str.isalnum\<close> accepts, and the underscore\<close>
  "is_word c =
     (let n = (of_char c :: nat)
      in (48 \<le> n \<and> n \<le> 57) \<or> (65 \<le> n \<and> n \<le> 90) \<or> n = 95 \<or> (97 \<le> n \<and> n \<le> 122)
         \<or> n = 170 \<or> n = 178 \<or> n = 179 \<or> n = 181 \<or> n = 185 \<or> n = 186
         \<or> (188 \<le> n \<and> n \<le> 190) \<or> (192 \<le> n \<and> n \<le> 214) \<or> (216 \<le> n \<and> n \<le> 246)
         \<or> 248 \<le> n)"

definition lit :: "string \<Rightarrow> pattern" where
  "lit w = map (\<lambda>c. Atom (\<lambda>x. x = c) One False) w"

definition package_pat :: pattern where
  \<comment> \<open>\<^verbatim>\<open>package\s+(\w+)\<close>\<close>
  "package_pat = lit ''package'' @ [Atom is_space Plus False, Atom is_word Plus True]"

definition import_pat :: pattern where
  \<comment> \<open>\<^verbatim>\<open>import\s*\(\s*(.*?)\s*\)\<close> with \<open>re.DOTALL\<close>\<close>
  "import_pat =
     lit ''import'' @ [Atom is_space Star False] @ lit ''('' @
     [Atom is_space Star False, Atom (\<lambda>c. True) Lazy_Star True, Atom is_space Star False] @
     lit '')''"

definition quoted_pat :: pattern where
  \<comment> \<open>a double quote, one or more characters other than a double quote (the group), a double quote\<close>
  "quoted_pat =
     [Atom (\<lambda>c. c = CHR 0x22) One False, Atom (\<lambda>c. c \<noteq> CHR 0x22) Plus True,
      Atom (\<lambda>c. c = CHR 0x22) One False]"

definition interface_pat :: pattern where
  \<comment> \<open>\<^verbatim>\<open>type\s+(\w+)\s+interface\s*{([^}]+)}\<close>\<close>
  "interface_pat =
     lit ''type'' @ [Atom is_space Plus False, Atom is_word Plus True, Atom is_space Plus False] @
     lit ''interface'' @ [Atom is_space Star False] @ lit ''{'' @
     [Atom (\<lambda>c. c \<noteq> CHR ''}'') Plus True] @ lit ''}''"

definition method_sig_pat :: pattern where
  \<comment> \<open>\<^verbatim>\<open>(\w+)\([^)]*\)[^{]*\<close>\<close>
  "method_sig_pat =
     [Atom is_word Plus True] @ lit ''('' @ [Atom (\<lambda>c. c \<noteq> CHR '')'') Star False] @ lit '')'' @
     [Atom (\<lambda>c. c \<noteq> CHR ''{'') Star False]"

definition struct_pat :: pattern where
  \<comment> \<open>\<^verbatim>\<open>type\s+(\w+)\s+struct\s*{([^}]+)}\<close>\<close>
  "struct_pat =
     lit ''type'' @ [Atom is_space Plus False, Atom is_word Plus True, Atom is_space Plus False] @
     lit ''struct'' @ [Atom is_space Star False] @ lit ''{'' @
     [Atom (\<lambda>c. c \<noteq> CHR ''}'') Plus True] @ lit ''}''"

definition field_pat :: pattern where
  \<comment> \<open>\<^verbatim>\<open>(\w+)\s+[^,\n]+\<close>\<close>
  "field_pat =
     [Atom is_word Plus True, Atom is_space Plus False,
      Atom (\<lambda>c. c \<noteq> CHR '','' \<and> c \<noteq> CHR 0x0A) Plus False]"

definition func_pat :: pattern where
  \<comment> \<open>\<^verbatim>\<open>func\s*\((\w+)\s+\*?(\w+)\)\s+(\w+)\<close>\<close>
  "func_pat =
     lit ''func'' @ [Atom is_space Star False] @ lit ''('' @
     [Atom is_word Plus True, Atom is_space Plus False, Atom (\<lambda>c. c = CHR ''*'') Opt False,
      Atom is_word Plus True] @
     lit '')'' @ [Atom is_space Plus False, Atom is_word Plus True]"

section \<open>The analyzer\<close>

datatype error = OSError | IndexError | KeyError

definition and_then :: "error + 'a \<Rightarrow> ('a \<Rightarrow> error + 'b) \<Rightarrow> error + 'b" where
  "and_then x f = (case x of Inl e \<Rightarrow> Inl e | Inr v \<Rightarrow> f v)"

fun for_each :: "('a \<Rightarrow> 's \<Rightarrow> error + 's) \<Rightarrow> 'a list \<Rightarrow> 's \<Rightarrow> error + 's" where
  "for_each f [] st = Inr st"
| "for_each f (x # xs) st = and_then (f x st) (for_each f xs)"

definition group :: "rmatch \<Rightarrow> nat \<Rightarrow> error + string" where
  \<comment> \<open>\<open>match.group(n)\<close>: a group the pattern does not have raises\<close>
  "group m n = (case m of (i, gs, r) \<Rightarrow> if n < length gs then Inr (gs ! n) else Inl IndexError)"

definition getitem :: "('k \<rightharpoonup> 'v) \<Rightarrow> 'k \<Rightarrow> error + 'v" where
  \<comment> \<open>\<open>d[k]\<close> read: a missing key raises\<close>
  "getitem d k = (case d k of None \<Rightarrow> Inl KeyError | Some v \<Rightarrow> Inr v)"

record analyzer =
  root_dir :: string
  packages :: "string \<rightharpoonup> string set"
  interfaces :: "string \<rightharpoonup> string list"
  structs :: "string \<rightharpoonup> string list"
  methods :: "string \<rightharpoonup> string list"
  "imports" :: "string \<rightharpoonup> string set"

definition init :: "string \<Rightarrow> analyzer" where
  "init root =
     \<lparr>root_dir = root, packages = Map.empty, interfaces = Map.empty, structs = Map.empty,
      methods = Map.empty, imports = Map.empty\<rparr>"

text \<open>
  The five steps of \<open>analyze_file\<close>, in the order of the source. \<open>relpath\<close> stands for
  \<open>os.path.relpath\<close>, a function of the platform.
\<close>

definition extract_package ::
  "(string \<Rightarrow> string \<Rightarrow> string) \<Rightarrow> string \<Rightarrow> string \<Rightarrow> analyzer \<Rightarrow> error + analyzer" where
  "extract_package relpath file_path content self =
     (case re_search package_pat content of
        None \<Rightarrow> Inr self
      | Some package_match \<Rightarrow>
          and_then (group package_match 1) (\<lambda>package_name.
            let rel_path = relpath file_path (root_dir self);
                pk = (if package_name \<notin> dom (packages self)
                      then (packages self)(package_name \<mapsto> {}) else packages self)
            in and_then (getitem pk package_name) (\<lambda>files.
                 Inr (self\<lparr>packages := pk(package_name \<mapsto> insert rel_path files)\<rparr>))))"

definition extract_imports :: "string \<Rightarrow> string \<Rightarrow> analyzer \<Rightarrow> error + analyzer" where
  "extract_imports file_path content self =
     (let import_matches = findall import_pat content
      in if import_matches \<noteq> [] then
           and_then
             (for_each
                (\<lambda>import_block. for_each
                   (\<lambda>imp acc. and_then (group imp 1) (\<lambda>g. Inr (insert g acc)))
                   (finditer quoted_pat import_block))
                import_matches {})
             (\<lambda>imps. Inr (self\<lparr>imports := (imports self)(file_path \<mapsto> imps)\<rparr>))
         else Inr self)"

definition extract_interfaces :: "string \<Rightarrow> analyzer \<Rightarrow> error + analyzer" where
  "extract_interfaces content self =
     for_each
       (\<lambda>match self.
          and_then (group match 1) (\<lambda>interface_name.
          and_then (group match 2) (\<lambda>method_block.
          and_then
            (for_each (\<lambda>method ms. and_then (group method 1) (\<lambda>g. Inr (ms @ [g])))
               (finditer method_sig_pat method_block) [])
            (\<lambda>ms. Inr (self\<lparr>interfaces := (interfaces self)(interface_name \<mapsto> ms)\<rparr>)))))
       (finditer interface_pat content) self"

definition extract_structs :: "string \<Rightarrow> analyzer \<Rightarrow> error + analyzer" where
  "extract_structs content self =
     for_each
       (\<lambda>match self.
          and_then (group match 1) (\<lambda>struct_name.
          and_then (group match 2) (\<lambda>field_block.
          and_then
            (for_each (\<lambda>field fs. and_then (group field 1) (\<lambda>g. Inr (fs @ [g])))
               (finditer field_pat field_block) [])
            (\<lambda>fs. Inr (self\<lparr>structs := (structs self)(struct_name \<mapsto> fs)\<rparr>)))))
       (finditer struct_pat content) self"

definition extract_methods :: "string \<Rightarrow> analyzer \<Rightarrow> error + analyzer" where
  "extract_methods content self =
     for_each
       (\<lambda>match self.
          and_then (group match 1) (\<lambda>receiver_name.
          and_then (group match 2) (\<lambda>type_name.
          and_then (group match 3) (\<lambda>method_name.
            let ms = (if type_name \<notin> dom (methods self)
                      then (methods self)(type_name \<mapsto> []) else methods self)
            in and_then (getitem ms type_name) (\<lambda>l.
                 Inr (self\<lparr>methods := ms(type_name \<mapsto> l @ [method_name])\<rparr>))))))
       (finditer func_pat content) self"

text \<open>
  \<open>analyze_file\<close> reads the file (the file system is a map from paths to texts; a path it
  does not hold fails to open) and runs the five steps on its text.
\<close>

definition scan_text ::
  "(string \<Rightarrow> string \<Rightarrow> string) \<Rightarrow> string \<Rightarrow> string \<Rightarrow> analyzer \<Rightarrow> error + analyzer" where
  "scan_text relpath file_path content self =
     and_then (extract_package relpath file_path content self) (\<lambda>s1.
     and_then (extract_imports file_path content s1) (\<lambda>s2.
     and_then (extract_interfaces content s2) (\<lambda>s3.
     and_then (extract_structs content s3) (\<lambda>s4.
     extract_methods content s4))))"

definition analyze_file ::
  "(string \<Rightarrow> string \<Rightarrow> string) \<Rightarrow> (string \<rightharpoonup> string) \<Rightarrow> string \<Rightarrow> analyzer \<Rightarrow> error + analyzer" where
  "analyze_file relpath fs file_path self =
     (case fs file_path of
        None \<Rightarrow> Inl OSError
      | Some content \<Rightarrow> scan_text relpath file_path content self)"

text \<open>
  \<open>analyze_directory\<close>: \<open>walk\<close> is what \<open>os.walk(root_dir)\<close> yields, in its order; \<open>join\<close>
  is \<open>os.path.join\<close> of the POSIX module on two components.
\<close>

definition endswith :: "string \<Rightarrow> string \<Rightarrow> bool" where
  "endswith s suffix =
     (length suffix \<le> length s \<and> drop (length s - length suffix) s = suffix)"

definition join :: "string \<Rightarrow> string \<Rightarrow> string" where
  "join a b =
     (if take 1 b = ''/'' then b
      else if a = [] \<or> endswith a ''/'' then a @ b
      else a @ ''/'' @ b)"

definition analyze_directory ::
  "(string \<Rightarrow> string \<Rightarrow> string) \<Rightarrow> (string \<rightharpoonup> string) \<Rightarrow>
   (string \<times> string list \<times> string list) list \<Rightarrow> analyzer \<Rightarrow> error + analyzer" where
  "analyze_directory relpath fs walk self =
     for_each
       (\<lambda>(root, dirs, files). for_each
          (\<lambda>file self.
             if endswith file ''.go''
             then (let full_path = join root file in analyze_file relpath fs full_path self)
             else Inr self)
          files)
       walk self"

section \<open>What each step computes\<close>

text \<open>
  No step can fail: every group read exists in its pattern, and every dictionary read
  follows the insertion of its key. Each step is therefore a pure update of one
  collection, by the matches its pattern finds.
\<close>

definition ngroups :: "pattern \<Rightarrow> nat" where
  "ngroups p = length (filter grp p)"

lemma match_here_groups:
  "match_here adv p moved s = Some (gs, r) \<Longrightarrow> length gs = ngroups p"
proof (induction p arbitrary: moved s gs r)
  case Nil
  then show ?case by (auto simp: ngroups_def split: if_splits)
next
  case (Cons a as)
  from Cons.prems obtain k gs' where
    m: "match_here adv as (moved \<or> 0 < k) (drop k s) = Some (gs', r)"
    and gs: "gs = (if grp a then take k s # gs' else gs')"
    by (auto dest!: first_some_SomeD split: option.splits)
  from Cons.IH [OF m] gs show ?case by (simp add: ngroups_def)
qed

lemma search_at_groups:
  "search_at p adv pos s = Some (i, gs, r) \<Longrightarrow> length gs = Suc (ngroups p)"
proof (induction s arbitrary: adv pos)
  case Nil
  then show ?case
    by (auto simp: search_at.simps [of _ _ _ "[]"] split: option.splits dest: match_here_groups)
next
  case (Cons c cs)
  then show ?case
    by (auto simp: search_at.simps [of _ _ _ "c # cs"] split: option.splits dest: match_here_groups)
qed

lemma finditer_from_groups:
  "m \<in> set (finditer_from p adv pos s) \<Longrightarrow> length (fst (snd m)) = Suc (ngroups p)"
proof (induction p adv pos s rule: finditer_from.induct)
  case (1 p adv pos s)
  show ?case
  proof (cases "search_at p adv pos s")
    case None
    with "1.prems" show ?thesis by (simp add: finditer_from.simps [of p adv pos s])
  next
    case (Some x)
    obtain i gs r where x: "x = (i, gs, r)" by (cases x)
    from "1.prems" Some x have "m = (i, gs, r) \<or>
        m \<in> set (finditer_from p (length s - (i - pos) = length r) (pos + (length s - length r)) r)"
      by (simp add: finditer_from.simps [of p adv pos s])
    then show ?thesis
    proof
      assume "m = (i, gs, r)"
      with Some x show ?thesis by (auto dest: search_at_groups)
    next
      assume "m \<in> set (finditer_from p (length s - (i - pos) = length r) (pos + (length s - length r)) r)"
      with "1.IH" Some x show ?thesis by simp
    qed
  qed
qed

lemma finditer_groups:
  "(i, gs, r) \<in> set (finditer p s) \<Longrightarrow> length gs = Suc (ngroups p)"
  using finditer_from_groups [of "(i, gs, r)" p False 0 s] by (simp add: finditer_def)

lemma ngroups_pats:
  "ngroups package_pat = 1" "ngroups import_pat = 1" "ngroups quoted_pat = 1"
  "ngroups interface_pat = 2" "ngroups method_sig_pat = 1" "ngroups struct_pat = 2"
  "ngroups field_pat = 1" "ngroups func_pat = 3"
  by (simp_all add: ngroups_def lit_def package_pat_def import_pat_def quoted_pat_def
      interface_pat_def method_sig_pat_def struct_pat_def field_pat_def func_pat_def)

lemma and_then_simps [simp]:
  "and_then (Inr v) f = f v" "and_then (Inl e) f = Inl e"
  by (simp_all add: and_then_def)

lemma for_each_pure:
  "(\<And>x st. x \<in> set xs \<Longrightarrow> f x st = Inr (g x st)) \<Longrightarrow> for_each f xs st = Inr (fold g xs st)"
  by (induction xs arbitrary: st) simp_all


definition grp_at :: "rmatch \<Rightarrow> nat \<Rightarrow> string" where
  "grp_at m n = fst (snd m) ! n"

lemma group_finditer:
  "m \<in> set (finditer p s) \<Longrightarrow> n \<le> ngroups p \<Longrightarrow> group m n = Inr (grp_at m n)"
  by (cases m) (auto simp: group_def grp_at_def dest: finditer_groups)

definition package_of :: "string \<Rightarrow> string option" where
  "package_of content = map_option (\<lambda>m. grp_at m 1) (re_search package_pat content)"

definition add_package :: "string \<Rightarrow> string \<Rightarrow> (string \<rightharpoonup> string set) \<Rightarrow> (string \<rightharpoonup> string set)" where
  "add_package name rel_path pk =
     pk(name \<mapsto> insert rel_path (case pk name of None \<Rightarrow> {} | Some files \<Rightarrow> files))"

lemma extract_package_eq:
  "extract_package relpath file_path content self =
     Inr (case package_of content of
            None \<Rightarrow> self
          | Some name \<Rightarrow>
              self\<lparr>packages := add_package name (relpath file_path (root_dir self)) (packages self)\<rparr>)"
proof (cases "re_search package_pat content")
  case None
  then show ?thesis by (simp add: extract_package_def package_of_def)
next
  case (Some m)
  obtain i gs r where m: "m = (i, gs, r)" by (cases m)
  with Some have "length gs = 2"
    using search_at_groups [of package_pat False 0 content i gs r]
    by (simp add: re_search_def ngroups_pats)
  with Some m show ?thesis
    by (auto simp: extract_package_def package_of_def group_def grp_at_def
        getitem_def add_package_def Let_def dom_def split: option.splits)
qed

definition import_set :: "string \<Rightarrow> string set" where
  "import_set content =
     (\<Union>block \<in> set (findall import_pat content).
        (\<lambda>m. grp_at m 1) ` set (finditer quoted_pat block))"

lemma collect_imports:
  "for_each (\<lambda>imp acc. and_then (group imp 1) (\<lambda>g. Inr (insert g acc))) (finditer quoted_pat block) acc
     = Inr (acc \<union> (\<lambda>m. grp_at m 1) ` set (finditer quoted_pat block))"
proof -
  have "for_each (\<lambda>imp acc. and_then (group imp 1) (\<lambda>g. Inr (insert g acc))) (finditer quoted_pat block) acc
     = Inr (fold (\<lambda>m acc. insert (grp_at m 1) acc) (finditer quoted_pat block) acc)"
    by (rule for_each_pure) (simp add: group_finditer ngroups_pats)
  moreover have "fold (\<lambda>m acc. insert (grp_at m 1) acc) ms acc = acc \<union> (\<lambda>m. grp_at m 1) ` set ms" for ms
    by (induction ms arbitrary: acc) auto
  ultimately show ?thesis by simp
qed

lemma collect_blocks:
  "for_each (\<lambda>import_block. for_each
       (\<lambda>imp acc. and_then (group imp 1) (\<lambda>g. Inr (insert g acc)))
       (finditer quoted_pat import_block)) blocks acc
     = Inr (acc \<union> (\<Union>block \<in> set blocks. (\<lambda>m. grp_at m 1) ` set (finditer quoted_pat block)))"
  by (induction blocks arbitrary: acc) (auto simp: collect_imports simp del: One_nat_def)

lemma extract_imports_eq:
  "extract_imports file_path content self =
     Inr (if findall import_pat content \<noteq> []
          then self\<lparr>imports := (imports self)(file_path \<mapsto> import_set content)\<rparr>
          else self)"
  by (simp add: extract_imports_def Let_def collect_blocks import_set_def del: One_nat_def)

definition names_in :: "pattern \<Rightarrow> string \<Rightarrow> string list" where
  "names_in p block = map (\<lambda>m. grp_at m 1) (finditer p block)"

lemma collect_names:
  assumes "ngroups p = 1"
  shows "for_each (\<lambda>m acc. and_then (group m 1) (\<lambda>g. Inr (acc @ [g]))) (finditer p block) acc
           = Inr (acc @ names_in p block)"
proof -
  have "for_each (\<lambda>m acc. and_then (group m 1) (\<lambda>g. Inr (acc @ [g]))) (finditer p block) acc
     = Inr (fold (\<lambda>m acc. acc @ [grp_at m 1]) (finditer p block) acc)"
    by (rule for_each_pure) (simp add: group_finditer assms)
  moreover have "fold (\<lambda>m acc. acc @ [grp_at m 1]) ms acc = acc @ map (\<lambda>m. grp_at m 1) ms" for ms
    by (induction ms arbitrary: acc) auto
  ultimately show ?thesis by (simp add: names_in_def)
qed

definition decls :: "pattern \<Rightarrow> pattern \<Rightarrow> string \<Rightarrow> (string \<times> string list) list" where
  "decls p q content = map (\<lambda>m. (grp_at m 1, names_in q (grp_at m 2))) (finditer p content)"

definition put_all :: "('k \<times> 'v) list \<Rightarrow> ('k \<rightharpoonup> 'v) \<Rightarrow> ('k \<rightharpoonup> 'v)" where
  "put_all kvs m = fold (\<lambda>(k, v) m. m(k \<mapsto> v)) kvs m"

lemma extract_interfaces_eq:
  "extract_interfaces content self =
     Inr (self\<lparr>interfaces := put_all (decls interface_pat method_sig_pat content) (interfaces self)\<rparr>)"
proof -
  have "extract_interfaces content self =
      Inr (fold (\<lambda>m self. self\<lparr>interfaces :=
             (interfaces self)(grp_at m 1 \<mapsto> names_in method_sig_pat (grp_at m 2))\<rparr>)
           (finditer interface_pat content) self)"
    unfolding extract_interfaces_def
    by (rule for_each_pure)
      (simp add: group_finditer ngroups_pats collect_names del: One_nat_def)
  moreover have "fold (\<lambda>m self. self\<lparr>interfaces :=
             (interfaces self)(grp_at m 1 \<mapsto> names_in method_sig_pat (grp_at m 2))\<rparr>) ms self
       = self\<lparr>interfaces := put_all (map (\<lambda>m. (grp_at m 1, names_in method_sig_pat (grp_at m 2))) ms)
            (interfaces self)\<rparr>" for ms
    by (induction ms arbitrary: self) (simp_all add: put_all_def)
  ultimately show ?thesis by (simp add: decls_def)
qed

lemma extract_structs_eq:
  "extract_structs content self =
     Inr (self\<lparr>structs := put_all (decls struct_pat field_pat content) (structs self)\<rparr>)"
proof -
  have "extract_structs content self =
      Inr (fold (\<lambda>m self. self\<lparr>structs :=
             (structs self)(grp_at m 1 \<mapsto> names_in field_pat (grp_at m 2))\<rparr>)
           (finditer struct_pat content) self)"
    unfolding extract_structs_def
    by (rule for_each_pure)
      (simp add: group_finditer ngroups_pats collect_names del: One_nat_def)
  moreover have "fold (\<lambda>m self. self\<lparr>structs :=
             (structs self)(grp_at m 1 \<mapsto> names_in field_pat (grp_at m 2))\<rparr>) ms self
       = self\<lparr>structs := put_all (map (\<lambda>m. (grp_at m 1, names_in field_pat (grp_at m 2))) ms)
            (structs self)\<rparr>" for ms
    by (induction ms arbitrary: self) (simp_all add: put_all_def)
  ultimately show ?thesis by (simp add: decls_def)
qed

definition method_decls :: "string \<Rightarrow> (string \<times> string) list" where
  "method_decls content = map (\<lambda>m. (grp_at m 2, grp_at m 3)) (finditer func_pat content)"

definition append_all :: "(string \<times> string) list \<Rightarrow> (string \<rightharpoonup> string list) \<Rightarrow> (string \<rightharpoonup> string list)" where
  "append_all kvs m =
     fold (\<lambda>(k, v) m. m(k \<mapsto> (case m k of None \<Rightarrow> [] | Some l \<Rightarrow> l) @ [v])) kvs m"

lemma extract_methods_eq:
  "extract_methods content self =
     Inr (self\<lparr>methods := append_all (method_decls content) (methods self)\<rparr>)"
proof -
  have "extract_methods content self =
      Inr (fold (\<lambda>m self. self\<lparr>methods :=
             (methods self)(grp_at m 2 \<mapsto>
                (case methods self (grp_at m 2) of None \<Rightarrow> [] | Some l \<Rightarrow> l) @ [grp_at m 3])\<rparr>)
           (finditer func_pat content) self)"
    unfolding extract_methods_def
    by (rule for_each_pure)
      (auto simp: group_finditer ngroups_pats getitem_def Let_def dom_def
        split: option.splits)
  moreover have "fold (\<lambda>m self. self\<lparr>methods :=
             (methods self)(grp_at m 2 \<mapsto>
                (case methods self (grp_at m 2) of None \<Rightarrow> [] | Some l \<Rightarrow> l) @ [grp_at m 3])\<rparr>) ms self
       = self\<lparr>methods := append_all (map (\<lambda>m. (grp_at m 2, grp_at m 3)) ms) (methods self)\<rparr>" for ms
    by (induction ms arbitrary: self) (simp_all add: append_all_def)
  ultimately show ?thesis by (simp add: method_decls_def)
qed

definition scanned ::
  "(string \<Rightarrow> string \<Rightarrow> string) \<Rightarrow> string \<Rightarrow> string \<Rightarrow> analyzer \<Rightarrow> analyzer" where
  "scanned relpath file_path content self =
     self\<lparr>packages :=
            (case package_of content of
               None \<Rightarrow> packages self
             | Some name \<Rightarrow> add_package name (relpath file_path (root_dir self)) (packages self)),
          interfaces := put_all (decls interface_pat method_sig_pat content) (interfaces self),
          structs := put_all (decls struct_pat field_pat content) (structs self),
          methods := append_all (method_decls content) (methods self),
          imports :=
            (if findall import_pat content \<noteq> []
             then (imports self)(file_path \<mapsto> import_set content) else imports self)\<rparr>"

lemma scan_text_eq:
  "scan_text relpath file_path content self = Inr (scanned relpath file_path content self)"
  by (cases "package_of content")
    (simp_all add: scan_text_def scanned_def extract_package_eq extract_imports_eq
      extract_interfaces_eq extract_structs_eq extract_methods_eq)

lemma analyze_file_eq:
  "fs file_path = Some content \<Longrightarrow>
     analyze_file relpath fs file_path self = Inr (scanned relpath file_path content self)"
  by (simp add: analyze_file_def scan_text_eq)

subsection \<open>Updates of the collections\<close>

lemma put_all_apply:
  "put_all kvs m k = (case map_of (rev kvs) k of None \<Rightarrow> m k | Some v \<Rightarrow> Some v)"
proof (induction kvs arbitrary: m)
  case Nil
  then show ?case by (simp add: put_all_def)
next
  case (Cons kv kvs)
  obtain k' v' where kv: "kv = (k', v')" by (cases kv)
  have "put_all (kv # kvs) m k = put_all kvs (m(k' \<mapsto> v')) k"
    by (simp add: put_all_def kv)
  also have "\<dots> = (case map_of (rev kvs) k of None \<Rightarrow> (m(k' \<mapsto> v')) k | Some v \<Rightarrow> Some v)"
    by (rule Cons.IH)
  also have "\<dots> = (case map_of (rev (kv # kvs)) k of None \<Rightarrow> m k | Some v \<Rightarrow> Some v)"
    by (auto simp: kv map_add_def split: option.splits)
  finally show ?case .
qed

lemma dom_put_all: "dom (put_all kvs m) = dom m \<union> fst ` set kvs"
proof -
  have "map_of (rev kvs) k = None \<longleftrightarrow> k \<notin> fst ` set kvs" for k
    using map_of_eq_None_iff [of "rev kvs" k] by simp
  then show ?thesis
    by (auto simp: put_all_apply dom_def split: option.splits)
qed

definition appended :: "(string \<times> string) list \<Rightarrow> string \<Rightarrow> string list" where
  "appended kvs k = map snd (filter (\<lambda>kv. fst kv = k) kvs)"

lemma append_all_apply:
  "append_all kvs m k =
     (if appended kvs k = [] then m k
      else Some ((case m k of None \<Rightarrow> [] | Some l \<Rightarrow> l) @ appended kvs k))"
proof (induction kvs arbitrary: m)
  case Nil
  then show ?case by (simp add: append_all_def appended_def)
next
  case (Cons kv kvs)
  obtain k' v' where kv: "kv = (k', v')" by (cases kv)
  have "append_all (kv # kvs) m k =
      append_all kvs (m(k' \<mapsto> (case m k' of None \<Rightarrow> [] | Some l \<Rightarrow> l) @ [v'])) k"
    by (simp add: append_all_def kv)
  then show ?case
    by (simp add: Cons.IH kv appended_def)
qed

lemma dom_append_all: "dom (append_all kvs m) = dom m \<union> fst ` set kvs"
proof -
  have "appended kvs k \<noteq> [] \<longleftrightarrow> k \<in> fst ` set kvs" for k
    by (auto simp: appended_def filter_empty_conv image_iff)
  then show ?thesis
    by (auto simp: append_all_apply dom_def split: if_splits)
qed

lemma add_package_apply:
  "add_package name rel_path pk k =
     (if k = name then Some (insert rel_path (case pk name of None \<Rightarrow> {} | Some files \<Rightarrow> files))
      else pk k)"
  by (simp add: add_package_def)

subsection \<open>Concrete scans\<close>

lemma shape_decls:
  "decls interface_pat method_sig_pat
     ''type Shape interface { Area() float64; Perimeter() float64 }'' = [(''Shape'', [''Area''])]"
  by code_simp

definition last_decl :: "pattern \<Rightarrow> pattern \<Rightarrow> string \<Rightarrow> string \<rightharpoonup> string list" where
  "last_decl p q content = map_of (rev (decls p q content))"

lemma foo_a_decls: "decls struct_pat field_pat ''type Foo struct { a int }'' = [(''Foo'', [''a''])]"
  by code_simp

lemma foo_b_decls: "decls struct_pat field_pat ''type Foo struct { b string }'' = [(''Foo'', [''b''])]"
  by code_simp

definition go_paths :: "(string \<times> string list \<times> string list) list \<Rightarrow> string list" where
  "go_paths walk =
     concat (map (\<lambda>(root, dirs, files). map (join root) (filter (\<lambda>file. endswith file ''.go'') files)) walk)"

definition scan_path ::
  "(string \<Rightarrow> string \<Rightarrow> string) \<Rightarrow> (string \<rightharpoonup> string) \<Rightarrow> string \<Rightarrow> analyzer \<Rightarrow> analyzer" where
  "scan_path relpath fs p self =
     (case fs p of None \<Rightarrow> self | Some content \<Rightarrow> scanned relpath p content self)"

lemma for_each_append:
  "for_each f (xs @ ys) st = and_then (for_each f xs st) (for_each f ys)"
  by (induction xs arbitrary: st) (simp_all add: and_then_def split: sum.splits)

lemma for_each_files:
  "for_each (\<lambda>file self. if endswith file ''.go''
        then (let full_path = join root file in analyze_file relpath fs full_path self)
        else Inr self) files st
     = for_each (analyze_file relpath fs) (map (join root) (filter (\<lambda>file. endswith file ''.go'') files)) st"
  by (induction files arbitrary: st) (simp_all add: and_then_def split: sum.splits)

lemma analyze_directory_paths:
  "analyze_directory relpath fs walk self = for_each (analyze_file relpath fs) (go_paths walk) self"
proof (induction walk arbitrary: self)
  case Nil
  then show ?case by (simp add: analyze_directory_def go_paths_def)
next
  case (Cons w walk)
  obtain root dirs files where w: "w = (root, dirs, files)" by (cases w)
  have "analyze_directory relpath fs (w # walk) self =
      and_then (for_each (analyze_file relpath fs)
          (map (join root) (filter (\<lambda>file. endswith file ''.go'') files)) self)
        (analyze_directory relpath fs walk)"
    unfolding analyze_directory_def w by (simp add: for_each_files)
  also have "\<dots> = and_then (for_each (analyze_file relpath fs)
          (map (join root) (filter (\<lambda>file. endswith file ''.go'') files)) self)
        (for_each (analyze_file relpath fs) (go_paths walk))"
    by (simp add: Cons.IH [abs_def])
  also have "\<dots> = for_each (analyze_file relpath fs) (go_paths (w # walk)) self"
    by (simp add: go_paths_def w for_each_append)
  finally show ?case .
qed

lemma for_each_readable:
  "set ps \<subseteq> dom fs \<Longrightarrow>
     for_each (analyze_file relpath fs) ps self = Inr (fold (scan_path relpath fs) ps self)"
proof (induction ps arbitrary: self)
  case Nil
  then show ?case by simp
next
  case (Cons p ps)
  then obtain c where c: "fs p = Some c" by auto
  with Cons show ?case by (simp add: analyze_file_eq scan_path_def)
qed


definition pkg_step ::
  "(string \<Rightarrow> string \<Rightarrow> string) \<Rightarrow> (string \<rightharpoonup> string) \<Rightarrow> string \<Rightarrow> string \<Rightarrow>
   (string \<rightharpoonup> string set) \<Rightarrow> (string \<rightharpoonup> string set)" where
  "pkg_step relpath fs root p pk =
     (case fs p of
        None \<Rightarrow> pk
      | Some content \<Rightarrow>
          (case package_of content of None \<Rightarrow> pk | Some name \<Rightarrow> add_package name (relpath p root) pk))"

definition imp_step ::
  "(string \<rightharpoonup> string) \<Rightarrow> string \<Rightarrow> (string \<rightharpoonup> string set) \<Rightarrow> (string \<rightharpoonup> string set)" where
  "imp_step fs p im =
     (case fs p of
        None \<Rightarrow> im
      | Some content \<Rightarrow> if findall import_pat content \<noteq> [] then im(p \<mapsto> import_set content) else im)"

definition declared :: "pattern \<Rightarrow> pattern \<Rightarrow> (string \<rightharpoonup> string) \<Rightarrow> string \<Rightarrow> string set" where
  "declared pat q fs p = (case fs p of None \<Rightarrow> {} | Some content \<Rightarrow> fst ` set (decls pat q content))"

definition receivers :: "(string \<rightharpoonup> string) \<Rightarrow> string \<Rightarrow> string set" where
  "receivers fs p = (case fs p of None \<Rightarrow> {} | Some content \<Rightarrow> fst ` set (method_decls content))"

lemma scan_path_root [simp]: "root_dir (scan_path relpath fs p self) = root_dir self"
  by (simp add: scan_path_def scanned_def split: option.splits)

lemma fold_scan_root [simp]: "root_dir (fold (scan_path relpath fs) ps self) = root_dir self"
  by (induction ps arbitrary: self) simp_all

lemma scan_path_packages:
  "packages (scan_path relpath fs p self) = pkg_step relpath fs (root_dir self) p (packages self)"
  by (simp add: scan_path_def scanned_def pkg_step_def split: option.splits)

lemma scan_path_imports:
  "imports (scan_path relpath fs p self) = imp_step fs p (imports self)"
  by (simp add: scan_path_def scanned_def imp_step_def split: option.splits)

lemma fold_scan_packages:
  "packages (fold (scan_path relpath fs) ps self)
     = fold (pkg_step relpath fs (root_dir self)) ps (packages self)"
  by (induction ps arbitrary: self) (simp_all add: scan_path_packages)

lemma fold_scan_imports:
  "imports (fold (scan_path relpath fs) ps self) = fold (imp_step fs) ps (imports self)"
  by (induction ps arbitrary: self) (simp_all add: scan_path_imports)

lemma fold_scan_interfaces_dom:
  "dom (interfaces (fold (scan_path relpath fs) ps self))
     = dom (interfaces self) \<union> (\<Union>p\<in>set ps. declared interface_pat method_sig_pat fs p)"
  by (induction ps arbitrary: self)
    (auto simp: scan_path_def scanned_def declared_def dom_put_all split: option.splits)

lemma fold_scan_structs_dom:
  "dom (structs (fold (scan_path relpath fs) ps self))
     = dom (structs self) \<union> (\<Union>p\<in>set ps. declared struct_pat field_pat fs p)"
  by (induction ps arbitrary: self)
    (auto simp: scan_path_def scanned_def declared_def dom_put_all split: option.splits)

lemma fold_scan_methods_dom:
  "dom (methods (fold (scan_path relpath fs) ps self))
     = dom (methods self) \<union> (\<Union>p\<in>set ps. receivers fs p)"
  by (induction ps arbitrary: self)
    (auto simp: scan_path_def scanned_def receivers_def dom_append_all split: option.splits)

lemma add_package_commute:
  "add_package n r (add_package n' r' pk) = add_package n' r' (add_package n r pk)"
  by (rule ext) (auto simp: add_package_apply split: option.splits)

lemma pkg_step_commute:
  "pkg_step relpath fs root p \<circ> pkg_step relpath fs root q
     = pkg_step relpath fs root q \<circ> pkg_step relpath fs root p"
  by (rule ext) (simp add: pkg_step_def add_package_commute split: option.splits)

lemma imp_step_commute: "imp_step fs p \<circ> imp_step fs q = imp_step fs q \<circ> imp_step fs p"
proof (cases "p = q")
  case True
  then show ?thesis by simp
next
  case False
  then show ?thesis
    by (intro ext) (auto simp: imp_step_def fun_upd_twist split: option.splits)
qed


lemma go_paths_ab:
  "go_paths [(''/r'', [], [''a.go'', ''notes.txt'', ''b.go''])] = [''/r/a.go'', ''/r/b.go'']"
  "go_paths [(''/r'', [], [''b.go'', ''notes.txt'', ''a.go''])] = [''/r/b.go'', ''/r/a.go'']"
  by (simp_all add: go_paths_def endswith_def join_def)

subsection \<open>What a scan leaves under each key\<close>





lemma import_set_empty:
  "\<forall>block\<in>set (findall import_pat content). finditer quoted_pat block = [] \<Longrightarrow> import_set content = {}"
  by (simp add: import_set_def)














subsection \<open>What a walk leaves under each key\<close>

definition method_entries :: "(string \<rightharpoonup> string) \<Rightarrow> string \<Rightarrow> string \<Rightarrow> string list" where
  "method_entries fs p k =
     (case fs p of None \<Rightarrow> [] | Some content \<Rightarrow> appended (method_decls content) k)"

lemma scan_path_methods:
  "methods (scan_path relpath fs p self) k =
     (if method_entries fs p k = [] then methods self k
      else Some ((case methods self k of None \<Rightarrow> [] | Some l \<Rightarrow> l) @ method_entries fs p k))"
  by (simp add: scan_path_def scanned_def method_entries_def append_all_apply split: option.splits)

lemma fold_scan_methods:
  "methods (fold (scan_path relpath fs) ps self) k =
     (if concat (map (\<lambda>p. method_entries fs p k) ps) = [] then methods self k
      else Some ((case methods self k of None \<Rightarrow> [] | Some l \<Rightarrow> l)
                 @ concat (map (\<lambda>p. method_entries fs p k) ps)))"
proof (induction ps arbitrary: self)
  case Nil
  then show ?case by simp
next
  case (Cons p ps)
  show ?case
    by (simp add: Cons.IH scan_path_methods)
qed

lemma mset_concat_map: "mset (concat (map f ps)) = (\<Sum>p\<in>#mset ps. mset (f p))"
  by (induction ps) simp_all

lemma fold_scan_methods_mset:
  assumes "mset ps' = mset ps"
  shows "map_option mset (methods (fold (scan_path relpath fs) ps' self) k)
       = map_option mset (methods (fold (scan_path relpath fs) ps self) k)"
proof -
  let ?l = "concat (map (\<lambda>p. method_entries fs p k) ps)"
  let ?l' = "concat (map (\<lambda>p. method_entries fs p k) ps')"
  have m: "mset ?l' = mset ?l"
    by (simp only: mset_concat_map assms)
  then have "?l' = [] \<longleftrightarrow> ?l = []"
    by (metis mset_zero_iff)
  with m show ?thesis
    by (simp add: fold_scan_methods)
qed

definition decl_in :: "pattern \<Rightarrow> pattern \<Rightarrow> (string \<rightharpoonup> string) \<Rightarrow> string \<Rightarrow> string \<Rightarrow> string list option" where
  "decl_in pat q fs p k = (case fs p of None \<Rightarrow> None | Some content \<Rightarrow> last_decl pat q content k)"

lemma scan_path_interfaces:
  "interfaces (scan_path relpath fs p self) k =
     (case decl_in interface_pat method_sig_pat fs p k of None \<Rightarrow> interfaces self k | Some v \<Rightarrow> Some v)"
  by (simp add: scan_path_def scanned_def decl_in_def put_all_apply last_decl_def split: option.splits)

lemma scan_path_structs:
  "structs (scan_path relpath fs p self) k =
     (case decl_in struct_pat field_pat fs p k of None \<Rightarrow> structs self k | Some v \<Rightarrow> Some v)"
  by (simp add: scan_path_def scanned_def decl_in_def put_all_apply last_decl_def split: option.splits)

lemma fold_last_value:
  assumes "\<And>p s. get (f p s) = (case d p of None \<Rightarrow> get s | Some v \<Rightarrow> Some v)"
  shows "get (fold f ps s) =
     (if List.map_filter d ps = [] then get s else Some (last (List.map_filter d ps)))"
proof (induction ps arbitrary: s)
  case Nil
  then show ?case by (simp add: map_filter_simps)
next
  case (Cons p ps)
  show ?case
    by (cases "d p") (simp_all add: Cons.IH assms map_filter_simps)
qed

lemma set_map_filter: "set (List.map_filter d ps) = {v. \<exists>p\<in>set ps. d p = Some v}"
  by (induction ps) (auto simp: map_filter_simps split: option.splits)

lemma fold_agree:
  assumes step: "\<And>p s. get (f p s) = (case d p of None \<Rightarrow> get s | Some v \<Rightarrow> Some v)"
    and same: "set ps' = set ps"
    and agree: "\<forall>p\<in>set ps. \<forall>q\<in>set ps. \<forall>v w. d p = Some v \<and> d q = Some w \<longrightarrow> v = w"
  shows "get (fold f ps' s) = get (fold f ps s)"
proof -
  let ?vs = "List.map_filter d ps" and ?vs' = "List.map_filter d ps'"
  have sets: "set ?vs' = set ?vs" by (simp add: set_map_filter same)
  show ?thesis
  proof (cases "?vs = []")
    case True
    with sets have "?vs' = []" by simp
    with True show ?thesis by (simp add: fold_last_value [of get f d, OF step])
  next
    case False
    with sets have ne: "?vs' \<noteq> []" by auto
    from False have "last ?vs \<in> set ?vs" by (rule last_in_set)
    then obtain p where p: "p \<in> set ps" "d p = Some (last ?vs)" by (auto simp: set_map_filter)
    from ne have "last ?vs' \<in> set ?vs'" by (rule last_in_set)
    with sets obtain q where q: "q \<in> set ps" "d q = Some (last ?vs')" by (auto simp: set_map_filter)
    from agree p q have "last ?vs' = last ?vs" by blast
    with False ne show ?thesis by (simp add: fold_last_value [of get f d, OF step])
  qed
qed

subsection \<open>Two sample files\<close>

definition sample_a :: string where
  "sample_a = ''package main import ('' @ [CHR 0x22] @ ''fmt'' @ [CHR 0x22] @
     '') type Foo struct { a int } type Bar struct { x int } func (f Foo) A''"

definition sample_b :: string where
  "sample_b = ''package main import ('' @ [CHR 0x22] @ ''os'' @ [CHR 0x22] @
     '') type Foo struct { b string } func (f *Foo) B''"

lemma sample_package: "package_of sample_a = Some ''main''" "package_of sample_b = Some ''main''"
  by code_simp+

lemma sample_import_paths:
  "map (\<lambda>b. map (\<lambda>m. grp_at m 1) (finditer quoted_pat b)) (findall import_pat sample_a) = [[''fmt'']]"
  "map (\<lambda>b. map (\<lambda>m. grp_at m 1) (finditer quoted_pat b)) (findall import_pat sample_b) = [[''os'']]"
  by code_simp+

lemma import_set_paths:
  "import_set content =
     \<Union> (set (map set (map (\<lambda>b. map (\<lambda>m. grp_at m 1) (finditer quoted_pat b)) (findall import_pat content))))"
  by (simp add: import_set_def)

lemma sample_structs:
  "decls struct_pat field_pat sample_a = [(''Foo'', [''a'']), (''Bar'', [''x''])]"
  "decls struct_pat field_pat sample_b = [(''Foo'', [''b''])]"
  by code_simp+

lemma sample_methods:
  "method_decls sample_a = [(''Foo'', ''A'')]" "method_decls sample_b = [(''Foo'', ''B'')]"
  by code_simp+

subsection \<open>The words of a pattern\<close>

fun reps_ok :: "quant \<Rightarrow> nat \<Rightarrow> bool" where
  "reps_ok One k = (k = 1)"
| "reps_ok Opt k = (k \<le> 1)"
| "reps_ok Star k = True"
| "reps_ok Plus k = (1 \<le> k)"
| "reps_ok Lazy_Star k = True"

primrec matches :: "pattern \<Rightarrow> string \<Rightarrow> bool" where
  "matches [] w = (w = [])"
| "matches (a # as) w =
     list_ex (\<lambda>k. reps_ok (qnt a) k \<and> list_all (cls a) (take k w) \<and> matches as (drop k w))
       [0..<Suc (length w)]"

lemma first_some_found: "x \<in> set xs \<Longrightarrow> f x \<noteq> None \<Longrightarrow> first_some f xs \<noteq> None"
  by (simp add: first_some_None_iff) blast

lemma counts_set: "set (counts q n) = {k. k \<le> n \<and> reps_ok q k}"
  by (cases q) auto

lemma matches_Cons_iff:
  "matches (a # as) w \<longleftrightarrow>
     (\<exists>u v. w = u @ v \<and> reps_ok (qnt a) (length u) \<and> list_all (cls a) u \<and> matches as v)"
proof
  assume "matches (a # as) w"
  then obtain k where "k \<le> length w" "reps_ok (qnt a) k" "list_all (cls a) (take k w)"
    "matches as (drop k w)"
    by (auto simp: list_ex_iff less_Suc_eq_le simp del: upt_Suc)
  then show "\<exists>u v. w = u @ v \<and> reps_ok (qnt a) (length u) \<and> list_all (cls a) u \<and> matches as v"
    by (intro exI [of _ "take k w"] exI [of _ "drop k w"]) simp
next
  assume "\<exists>u v. w = u @ v \<and> reps_ok (qnt a) (length u) \<and> list_all (cls a) u \<and> matches as v"
  then obtain u v where "w = u @ v" "reps_ok (qnt a) (length u)" "list_all (cls a) u" "matches as v"
    by blast
  then show "matches (a # as) w"
    by (auto simp: list_ex_iff simp del: upt_Suc intro!: bexI [of _ "length u"])
qed

lemma matches_append:
  "matches (p @ q) w \<longleftrightarrow> (\<exists>u v. w = u @ v \<and> matches p u \<and> matches q v)"
proof (induction p arbitrary: w)
  case Nil
  then show ?case by simp
next
  case (Cons a p)
  show ?case
  proof
    assume "matches ((a # p) @ q) w"
    then obtain x y where xy: "w = x @ y" "reps_ok (qnt a) (length x)" "list_all (cls a) x"
      "matches (p @ q) y"
      by (auto simp: matches_Cons_iff simp del: matches.simps)
    then obtain u v where uv: "y = u @ v" "matches p u" "matches q v"
      using Cons.IH by blast
    have "matches (a # p) (x @ u)"
      unfolding matches_Cons_iff using xy uv by blast
    with xy uv show "\<exists>u v. w = u @ v \<and> matches (a # p) u \<and> matches q v"
      by (intro exI [of _ "x @ u"] exI [of _ v]) simp
  next
    assume "\<exists>u v. w = u @ v \<and> matches (a # p) u \<and> matches q v"
    then obtain u v where uv: "w = u @ v" "matches (a # p) u" "matches q v" by blast
    then obtain x y where xy: "u = x @ y" "reps_ok (qnt a) (length x)" "list_all (cls a) x"
      "matches p y"
      by (auto simp: matches_Cons_iff simp del: matches.simps)
    have "matches (p @ q) (y @ v)" using Cons.IH xy uv by blast
    then show "matches ((a # p) @ q) w"
      unfolding append_Cons matches_Cons_iff using xy uv
      by (intro exI [of _ x] exI [of _ "y @ v"]) simp
  qed
qed

declare matches.simps(2) [simp del]

lemma matches_Cons_append: "matches (a # p) w \<longleftrightarrow> (\<exists>u v. w = u @ v \<and> matches [a] u \<and> matches p v)"
  using matches_append [of "[a]" p w] by simp

lemma matches_One [simp]: "matches [Atom c One g] w \<longleftrightarrow> (\<exists>x. w = [x] \<and> c x)"
  by (auto simp: matches_Cons_iff length_Suc_conv)

lemma matches_Plus [simp]: "matches [Atom c Plus g] w \<longleftrightarrow> w \<noteq> [] \<and> list_all c w"
  by (cases w) (auto simp: matches_Cons_iff)

lemma matches_Star [simp]: "matches [Atom c Star g] w \<longleftrightarrow> list_all c w"
  by (auto simp: matches_Cons_iff)

lemma matches_Lazy_Star [simp]: "matches [Atom c Lazy_Star g] w \<longleftrightarrow> list_all c w"
  by (auto simp: matches_Cons_iff)

lemma matches_Opt [simp]: "matches [Atom c Opt g] w \<longleftrightarrow> w = [] \<or> (\<exists>x. w = [x] \<and> c x)"
  by (cases w) (auto simp: matches_Cons_iff)

lemma matches_lit [simp]: "matches (lit u) w \<longleftrightarrow> w = u"
proof (induction u arbitrary: w)
  case Nil
  then show ?case by (simp add: lit_def)
next
  case (Cons x u)
  have "matches (lit (x # u)) w \<longleftrightarrow>
      (\<exists>a b. w = a @ b \<and> matches [Atom (\<lambda>y. y = x) One False] a \<and> matches (lit u) b)"
    unfolding lit_def list.map by (rule matches_Cons_append)
  then show ?case by (auto simp: Cons.IH)
qed

lemma list_all_take_takeWhile:
  "k \<le> length (takeWhile c xs) \<Longrightarrow> list_all c (take k xs)"
proof (induction xs arbitrary: k)
  case Nil
  then show ?case by simp
next
  case (Cons x xs)
  then show ?case by (cases k) (auto split: if_splits)
qed

text \<open>Every match is a word of the pattern, and every word of the pattern is matched.\<close>

lemma match_here_sound:
  "match_here adv p moved s = Some (gs, r) \<Longrightarrow> \<exists>w. s = w @ r \<and> matches p w"
proof (induction p arbitrary: moved s gs)
  case Nil
  then show ?case by (auto split: if_splits)
next
  case (Cons a as)
  from Cons.prems obtain k gs' where k: "k \<in> set (counts (qnt a) (length (takeWhile (cls a) s)))"
    and m: "match_here adv as (moved \<or> 0 < k) (drop k s) = Some (gs', r)"
    by (auto dest!: first_some_SomeD split: option.splits)
  from Cons.IH [OF m] obtain w' where w': "drop k s = w' @ r" "matches as w'" by blast
  from k have kn: "k \<le> length (takeWhile (cls a) s)" and ok: "reps_ok (qnt a) k"
    by (simp_all add: counts_set)
  have all: "list_all (cls a) (take k s)"
    using kn by (rule list_all_take_takeWhile)
  have len: "length (take k s) = k"
    using kn length_takeWhile_le [of "cls a" s] by simp
  have "s = take k s @ drop k s" by simp
  with w' have "s = (take k s @ w') @ r" by simp
  moreover have "matches (a # as) (take k s @ w')"
    unfolding matches_Cons_iff
    by (rule exI [of _ "take k s"], rule exI [of _ w']) (simp add: ok all len w' del: length_take)
  ultimately show ?case by (intro exI [of _ "take k s @ w'"] conjI)
qed

lemma takeWhile_prefix_length:
  "list_all c u \<Longrightarrow> length u \<le> length (takeWhile c (u @ s))"
  by (induction u) simp_all

lemma match_here_complete:
  "matches p w \<Longrightarrow> match_here False p moved (w @ r) \<noteq> None"
proof (induction p arbitrary: moved w)
  case Nil
  then show ?case by simp
next
  case (Cons a as)
  from Cons.prems obtain u v where uv: "w = u @ v" "reps_ok (qnt a) (length u)"
    "list_all (cls a) u" "matches as v"
    unfolding matches_Cons_iff by (elim exE conjE)
  let ?f = "\<lambda>k. case match_here False as (moved \<or> 0 < k) (drop k (w @ r)) of
              None \<Rightarrow> None
            | Some (gs, r') \<Rightarrow> Some (if grp a then take k (w @ r) # gs else gs, r')"
  have mem: "length u \<in> set (counts (qnt a) (length (takeWhile (cls a) (w @ r))))"
    using uv takeWhile_prefix_length [of "cls a" u "v @ r"] by (simp add: counts_set)
  have "drop (length u) (w @ r) = v @ r" using uv(1) by simp
  then have "match_here False as (moved \<or> 0 < length u) (drop (length u) (w @ r)) \<noteq> None"
    using Cons.IH [OF uv(4)] by simp
  then have "?f (length u) \<noteq> None" by (auto split: option.splits)
  with mem have "first_some ?f (counts (qnt a) (length (takeWhile (cls a) (w @ r)))) \<noteq> None"
    by (rule first_some_found)
  then show ?case by (simp only: match_here.simps not_False_eq_True)
qed

subsection \<open>Where a search finds its match\<close>

lemma all_le_Suc: "(\<forall>j \<le> Suc n. P j) \<longleftrightarrow> P 0 \<and> (\<forall>j \<le> n. P (Suc j))"
  apply (rule iffI)
   apply simp
  apply clarify
  apply (case_tac j)
   apply simp_all
  done

lemma all_less_Suc: "(\<forall>j < Suc n. P j) \<longleftrightarrow> P 0 \<and> (\<forall>j < n. P (Suc j))"
  apply (rule iffI)
   apply simp
  apply clarify
  apply (case_tac j)
   apply simp_all
  done

lemma search_at_None_iff:
  "search_at p False pos s = None \<longleftrightarrow> (\<forall>j \<le> length s. match_here False p False (drop j s) = None)"
proof (induction s arbitrary: pos)
  case Nil
  show ?case by (simp add: search_at.simps [of _ _ _ "[]"] split: option.splits)
next
  case (Cons c cs)
  have "search_at p False pos (c # cs) = None \<longleftrightarrow>
      match_here False p False (c # cs) = None \<and> search_at p False (Suc pos) cs = None"
    by (simp add: search_at.simps [of _ _ _ "c # cs"] split: option.splits)
  then show ?case by (simp add: Cons.IH all_le_Suc)
qed

lemma search_at_leftmost:
  "n \<le> length s \<Longrightarrow> match_here False p False (drop n s) = Some (gs, r) \<Longrightarrow>
   (\<forall>j < n. match_here False p False (drop j s) = None) \<Longrightarrow>
     search_at p False pos s = Some (pos + n, take (length s - n - length r) (drop n s) # gs, r)"
proof (induction s arbitrary: n pos)
  case Nil
  then show ?case by (simp add: search_at.simps [of _ _ _ "[]"])
next
  case (Cons c cs)
  show ?case
  proof (cases n)
    case 0
    with Cons.prems show ?thesis by (simp add: search_at.simps [of _ _ _ "c # cs"])
  next
    case (Suc m)
    with Cons.prems have none: "match_here False p False (c # cs) = None"
      and m: "m \<le> length cs" "match_here False p False (drop m cs) = Some (gs, r)"
      and before: "\<forall>j < m. match_here False p False (drop j cs) = None"
      by (auto simp: all_less_Suc)
    from Cons.IH [OF m before, of "Suc pos"] none Suc show ?thesis
      by (simp add: search_at.simps [of _ _ _ "c # cs"])
  qed
qed

lemma search_at_SomeD:
  "search_at p False pos s = Some (i, g, r) \<Longrightarrow>
     \<exists>n gs. i = pos + n \<and> n \<le> length s \<and> match_here False p False (drop n s) = Some (gs, r) \<and>
       g = take (length s - n - length r) (drop n s) # gs \<and>
       (\<forall>j < n. match_here False p False (drop j s) = None)"
proof (induction s arbitrary: pos)
  case Nil
  then show ?case
    by (auto simp: search_at.simps [of _ _ _ "[]"] split: option.splits)
next
  case (Cons c cs)
  show ?case
  proof (cases "match_here False p False (c # cs)")
    case (Some x)
    obtain gs r' where x: "x = (gs, r')" by (cases x)
    with Some Cons.prems have "i = pos" "g = take (length (c # cs) - length r) (c # cs) # gs" "r' = r"
      by (auto simp: search_at.simps [of _ _ _ "c # cs"])
    with Some x show ?thesis
      by (intro exI [of _ 0] exI [of _ gs]) simp
  next
    case None
    with Cons.prems have "search_at p False (Suc pos) cs = Some (i, g, r)"
      by (simp add: search_at.simps [of _ _ _ "c # cs"])
    from Cons.IH [OF this] obtain n gs where n: "i = Suc pos + n" "n \<le> length cs"
      "match_here False p False (drop n cs) = Some (gs, r)"
      "g = take (length cs - n - length r) (drop n cs) # gs"
      "\<forall>j < n. match_here False p False (drop j cs) = None"
      by blast
    with None show ?thesis
      by (intro exI [of _ "Suc n"] exI [of _ gs]) (simp add: all_less_Suc)
  qed
qed

text \<open>A pattern with a mandatory item never matches the empty text; for it the
  must-advance flag makes no difference.\<close>

definition consuming :: "pattern \<Rightarrow> bool" where
  "consuming p = list_ex (\<lambda>a. qnt a = One \<or> qnt a = Plus) p"

lemma first_some_cong:
  "(\<And>x. x \<in> set xs \<Longrightarrow> f x = g x) \<Longrightarrow> first_some f xs = first_some g xs"
  by (induction xs) (auto split: option.splits)

lemma zero_in_counts: "0 \<in> set (counts q n) \<Longrightarrow> q \<noteq> One \<and> q \<noteq> Plus"
  by (cases q) (auto split: if_splits)

lemma match_here_adv:
  "moved \<or> consuming p \<Longrightarrow> match_here adv p moved s = match_here False p moved s"
proof (induction p arbitrary: moved s)
  case Nil
  then show ?case by (simp add: consuming_def)
next
  case (Cons a as)
  have "match_here adv as (moved \<or> 0 < k) (drop k s) = match_here False as (moved \<or> 0 < k) (drop k s)"
    if "k \<in> set (counts (qnt a) (length (takeWhile (cls a) s)))" for k
  proof (cases "0 < k")
    case True
    then show ?thesis using Cons.IH [of "moved \<or> 0 < k"] by simp
  next
    case False
    with that have "qnt a \<noteq> One \<and> qnt a \<noteq> Plus" using zero_in_counts [of "qnt a"] by simp
    with Cons.prems have "moved \<or> consuming as" by (auto simp: consuming_def)
    then show ?thesis using Cons.IH [of "moved \<or> 0 < k"] False by simp
  qed
  then show ?case
    unfolding match_here.simps by (intro first_some_cong) simp
qed

lemma search_at_adv: "consuming p \<Longrightarrow> search_at p adv pos s = search_at p False pos s"
  by (cases adv)
    (simp_all add: search_at.simps [of p True pos s] search_at.simps [of p False pos s]
      match_here_adv [where adv = True])

lemma match_consumes:
  assumes "consuming p" "match_here False p False s = Some (gs, r)"
  shows "length r < length s"
proof -
  from assms have "match_here True p False s = Some (gs, r)"
    by (simp add: match_here_adv [where adv = True])
  from match_here_rest [OF this] show ?thesis by simp
qed

lemma match_here_suffix:
  "match_here adv p moved s = Some (gs, r) \<Longrightarrow> r = drop (length s - length r) s"
proof -
  assume "match_here adv p moved s = Some (gs, r)"
  from match_here_sound [OF this] obtain w where "s = w @ r" by blast
  then show ?thesis by simp
qed

subsection \<open>Occurrences of a pattern in a text\<close>

definition occurs_at :: "pattern \<Rightarrow> string \<Rightarrow> nat \<Rightarrow> bool" where
  "occurs_at p s n = (n \<le> length s \<and> match_here False p False (drop n s) \<noteq> None)"

lemma occurs_at_iff:
  "occurs_at p s n \<longleftrightarrow> (\<exists>pre w post. s = pre @ w @ post \<and> length pre = n \<and> matches p w)"
proof
  assume "occurs_at p s n"
  then obtain gs r where n: "n \<le> length s" and m: "match_here False p False (drop n s) = Some (gs, r)"
    by (auto simp: occurs_at_def)
  from match_here_sound [OF m] obtain w where w: "drop n s = w @ r" "matches p w" by blast
  have "s = take n s @ drop n s" by simp
  with w n show "\<exists>pre w post. s = pre @ w @ post \<and> length pre = n \<and> matches p w"
    by (intro exI [of _ "take n s"] exI [of _ w] exI [of _ r]) simp
next
  assume "\<exists>pre w post. s = pre @ w @ post \<and> length pre = n \<and> matches p w"
  then obtain pre w post where s: "s = pre @ w @ post" "length pre = n" "matches p w" by blast
  from match_here_complete [OF s(3), of False post] s show "occurs_at p s n"
    by (simp add: occurs_at_def)
qed

lemma search_at_None_occurs:
  "search_at p False pos s = None \<longleftrightarrow> (\<forall>n. \<not> occurs_at p s n)"
proof -
  have "(\<forall>j \<le> length s. f j = None) \<longleftrightarrow> (\<forall>n. \<not> (n \<le> length s \<and> f n \<noteq> None))"
    for f :: "nat \<Rightarrow> (string list \<times> string) option"
  proof (intro iffI allI impI notI)
    fix n
    assume a: "\<forall>j \<le> length s. f j = None" and b: "n \<le> length s \<and> f n \<noteq> None"
    from b have "n \<le> length s" ..
    with a have "f n = None" by (elim allE [of _ n] impE) assumption+
    with b show False by (elim conjE notE)
  next
    fix j
    assume a: "\<forall>n. \<not> (n \<le> length s \<and> f n \<noteq> None)" and j: "j \<le> length s"
    from a have "\<not> (j \<le> length s \<and> f j \<noteq> None)" ..
    with j show "f j = None" by (cases "f j") simp_all
  qed
  then show ?thesis
    unfolding search_at_None_iff occurs_at_def .
qed

lemma finditer_Nil_iff: "finditer p s = [] \<longleftrightarrow> (\<forall>n. \<not> occurs_at p s n)"
proof -
  have "finditer p s =
      (case search_at p False 0 s of
         None \<Rightarrow> []
       | Some (i, gs, r) \<Rightarrow>
           (i, gs, r) # finditer_from p (length s - (i - 0) = length r) (0 + (length s - length r)) r)"
    unfolding finditer_def by (rule finditer_from.simps)
  then have "finditer p s = [] \<longleftrightarrow> search_at p False 0 s = None"
    by (simp split: option.splits)
  then show ?thesis by (simp add: search_at_None_occurs)
qed

lemma findall_Nil_iff: "findall p s = [] \<longleftrightarrow> (\<forall>n. \<not> occurs_at p s n)"
  by (simp add: findall_def finditer_Nil_iff)

lemma re_search_None_iff: "re_search p s = None \<longleftrightarrow> (\<forall>n. \<not> occurs_at p s n)"
  by (simp add: re_search_def search_at_None_occurs)

subsection \<open>The import block\<close>

lemma matches_lit_append: "matches (lit u @ p) w \<longleftrightarrow> (\<exists>v. w = u @ v \<and> matches p v)"
  unfolding matches_append [of "lit u" p] matches_lit by blast

lemma matches_Star_Cons:
  "matches (Atom c Star g # p) w \<longleftrightarrow> (\<exists>a v. w = a @ v \<and> list_all c a \<and> matches p v)"
  unfolding matches_Cons_append [of "Atom c Star g" p] matches_Star ..

lemma matches_Plus_Cons:
  "matches (Atom c Plus g # p) w \<longleftrightarrow> (\<exists>a v. w = a @ v \<and> (a \<noteq> [] \<and> list_all c a) \<and> matches p v)"
  unfolding matches_Cons_append [of "Atom c Plus g" p] matches_Plus ..

lemma matches_Lazy_Star_Cons:
  "matches (Atom c Lazy_Star g # p) w \<longleftrightarrow> (\<exists>a v. w = a @ v \<and> list_all c a \<and> matches p v)"
  unfolding matches_Cons_append [of "Atom c Lazy_Star g" p] matches_Lazy_Star ..

lemma matches_Opt_Cons:
  "matches (Atom c Opt g # p) w \<longleftrightarrow>
     (\<exists>a v. w = a @ v \<and> (a = [] \<or> (\<exists>x. a = [x] \<and> c x)) \<and> matches p v)"
  unfolding matches_Cons_append [of "Atom c Opt g" p] matches_Opt ..

lemma matches_One_Cons:
  "matches (Atom c One g # p) w \<longleftrightarrow> (\<exists>a v. w = a @ v \<and> (\<exists>x. a = [x] \<and> c x) \<and> matches p v)"
  unfolding matches_Cons_append [of "Atom c One g" p] matches_One ..

lemma matches_import_pat:
  "matches import_pat w \<longleftrightarrow>
     (\<exists>ws body. w = ''import'' @ ws @ ''('' @ body @ '')'' \<and> list_all is_space ws)"
proof
  assume "matches import_pat w"
  then obtain ws v where w: "w = ''import'' @ ws @ ''('' @ v" and ws: "list_all is_space ws"
    and v: "matches ([Atom is_space Star False, Atom (\<lambda>c. True) Lazy_Star True,
                      Atom is_space Star False] @ lit '')'') v"
    unfolding import_pat_def matches_lit_append append_Cons append_Nil matches_Star_Cons
    by blast
  from v obtain body where "v = body @ '')''"
    unfolding matches_append [of _ "lit '')''"] matches_lit by blast
  with w ws show "\<exists>ws body. w = ''import'' @ ws @ ''('' @ body @ '')'' \<and> list_all is_space ws"
    by blast
next
  assume "\<exists>ws body. w = ''import'' @ ws @ ''('' @ body @ '')'' \<and> list_all is_space ws"
  then obtain ws body where w: "w = ''import'' @ ws @ ''('' @ body @ '')''"
    and ws: "list_all is_space ws" by blast
  have "matches [Atom is_space Star False, Atom (\<lambda>c. True) Lazy_Star True, Atom is_space Star False] body"
    unfolding matches_Star_Cons matches_Lazy_Star_Cons
    by (intro exI [of _ "[]"] exI [of _ body] conjI) (simp_all add: list_all_iff)
  then have "matches ([Atom is_space Star False, Atom (\<lambda>c. True) Lazy_Star True,
                      Atom is_space Star False] @ lit '')'') (body @ '')'')"
    unfolding matches_append [of _ "lit '')''"] matches_lit by blast
  with ws have "matches import_pat (''import'' @ ws @ ''('' @ body @ '')'')"
    unfolding import_pat_def matches_lit_append append_Cons append_Nil matches_Star_Cons
    by blast
  with w show "matches import_pat w" by simp
qed

lemma import_block_occurs:
  "(\<exists>n. occurs_at import_pat content n) \<longleftrightarrow>
     (\<exists>pre ws body post. content = pre @ ''import'' @ ws @ ''('' @ body @ '')'' @ post \<and> list_all is_space ws)"
proof
  assume "\<exists>n. occurs_at import_pat content n"
  then obtain pre w post where "content = pre @ w @ post" "matches import_pat w"
    unfolding occurs_at_iff by blast
  then obtain ws body where "content = pre @ (''import'' @ ws @ ''('' @ body @ '')'') @ post"
    "list_all is_space ws"
    unfolding matches_import_pat by blast
  then show "\<exists>pre ws body post. content = pre @ ''import'' @ ws @ ''('' @ body @ '')'' @ post \<and> list_all is_space ws"
    by (intro exI [of _ pre] exI [of _ ws] exI [of _ body] exI [of _ post]) simp
next
  assume "\<exists>pre ws body post. content = pre @ ''import'' @ ws @ ''('' @ body @ '')'' @ post \<and> list_all is_space ws"
  then obtain pre ws body post where c: "content = pre @ ''import'' @ ws @ ''('' @ body @ '')'' @ post"
    and ws: "list_all is_space ws" by blast
  from ws have "matches import_pat (''import'' @ ws @ ''('' @ body @ '')'')"
    unfolding matches_import_pat by blast
  with c have "occurs_at import_pat content (length pre)"
    unfolding occurs_at_iff
    by (intro exI [of _ pre] exI [of _ "''import'' @ ws @ ''('' @ body @ '')''"] exI [of _ post]) simp
  then show "\<exists>n. occurs_at import_pat content n" ..
qed

lemma findall_import_Nil_iff:
  "findall import_pat content = [] \<longleftrightarrow>
     \<not> (\<exists>pre ws body post. content = pre @ ''import'' @ ws @ ''('' @ body @ '')'' @ post \<and> list_all is_space ws)"
  unfolding findall_Nil_iff import_block_occurs [symmetric] by simp

lemma empty_import_block: "findall import_pat ''import ( )'' = [[]]"
  by code_simp

lemma no_quoted_in_empty: "finditer quoted_pat [] = []"
  by code_simp

subsection \<open>Greedy steps of the matcher\<close>

lemma case_option_pair_id:
  "(case x of None \<Rightarrow> None | Some (gs, r) \<Rightarrow> Some (gs, r)) = x"
  by (cases x) auto

lemma match_here_lit_Cons:
  "match_here adv (Atom (\<lambda>x. x = c) One False # p) moved (c # s) = match_here adv p True s"
  by (cases "match_here adv p True s") auto

lemma match_here_lit:
  "match_here adv (lit u @ p) moved (u @ s) = match_here adv p (moved \<or> u \<noteq> []) s"
proof (induction u arbitrary: moved)
  case Nil
  then show ?case by (simp add: lit_def)
next
  case (Cons c u)
  have "match_here adv (lit (c # u) @ p) moved ((c # u) @ s)
      = match_here adv (lit u @ p) True (u @ s)"
    unfolding lit_def list.map append_Cons by (rule match_here_lit_Cons)
  then show ?case by (simp add: Cons.IH)
qed

lemma counts_Plus_greedy: "0 < n \<Longrightarrow> counts Plus n = n # rev [1..<n]"
  by (cases n) simp_all

lemma match_here_Plus_greedy:
  assumes "takeWhile c s \<noteq> []"
    and "match_here adv p True (dropWhile c s) = Some (gs, r)"
  shows "match_here adv (Atom c Plus g # p) moved s
       = Some (if g then takeWhile c s # gs else gs, r)"
proof -
  let ?n = "length (takeWhile c s)"
  from assms(1) have n: "0 < ?n" by simp
  have t: "take ?n s = takeWhile c s" and d: "drop ?n s = dropWhile c s"
    by (simp_all add: takeWhile_eq_take [symmetric] dropWhile_eq_drop [symmetric])
  let ?f = "\<lambda>k. case match_here adv p (moved \<or> 0 < k) (drop k s) of
              None \<Rightarrow> None
            | Some (gs, r') \<Rightarrow> Some (if g then take k s # gs else gs, r')"
  have "match_here adv (Atom c Plus g # p) moved s = first_some ?f (?n # rev [1..<?n])"
    unfolding match_here.simps atom.sel counts_Plus_greedy [OF n] ..
  also have "\<dots> = Some (if g then takeWhile c s # gs else gs, r)"
    unfolding first_some.simps by (simp add: t d n assms)
  finally show ?thesis .
qed

lemma takeWhile_run:
  "list_all c u \<Longrightarrow> (s = [] \<or> \<not> c (hd s)) \<Longrightarrow> takeWhile c (u @ s) = u"
proof (induction u)
  case Nil
  then show ?case by (cases s) auto
next
  case (Cons x u)
  then show ?case by simp
qed

lemma dropWhile_run:
  "list_all c u \<Longrightarrow> (s = [] \<or> \<not> c (hd s)) \<Longrightarrow> dropWhile c (u @ s) = s"
proof (induction u)
  case Nil
  then show ?case by (cases s) auto
next
  case (Cons x u)
  then show ?case by simp
qed

lemma word_not_space: "is_word c \<Longrightarrow> \<not> is_space c"
  by (auto simp: is_word_def is_space_def Let_def)

subsection \<open>The package declaration\<close>

text \<open>
  What the text shows at a position, without the matcher: the word \<open>package\<close>, at
  least one white-space character, and the longest run of word characters after them.
\<close>

definition declaration_at :: "string \<Rightarrow> string option" where
  "declaration_at s =
     (let t = drop 7 s; name = takeWhile is_word (dropWhile is_space t)
      in if take 7 s = ''package'' \<and> takeWhile is_space t \<noteq> [] \<and> name \<noteq> []
         then Some name else None)"

lemma matches_package_pat:
  "matches package_pat w \<longleftrightarrow>
     (\<exists>ws nm. w = ''package'' @ ws @ nm \<and> (ws \<noteq> [] \<and> list_all is_space ws)
        \<and> nm \<noteq> [] \<and> list_all is_word nm)"
  unfolding package_pat_def matches_lit_append matches_Plus_Cons [of _ _ "[Atom is_word Plus True]"]
    matches_Plus
  by blast

lemma match_package_Some:
  assumes "declaration_at s = Some name"
  shows "match_here False package_pat False s
       = Some ([name], dropWhile is_word (dropWhile is_space (drop 7 s)))"
proof -
  let ?t = "drop 7 s"
  let ?u = "dropWhile is_space ?t"
  from assms have p: "take 7 s = ''package''" and sp: "takeWhile is_space ?t \<noteq> []"
    and nm: "takeWhile is_word ?u \<noteq> []" and name: "name = takeWhile is_word ?u"
    by (auto simp: declaration_at_def Let_def split: if_splits)
  have s: "s = ''package'' @ ?t"
    using append_take_drop_id [of 7 s] p by simp
  have 1: "match_here False [] True (dropWhile is_word ?u) = Some ([], dropWhile is_word ?u)"
    by simp
  have 2: "match_here False [Atom is_word Plus True] True ?u
      = Some ([takeWhile is_word ?u], dropWhile is_word ?u)"
    using match_here_Plus_greedy [OF nm 1, of True True] by simp
  have 3: "match_here False [Atom is_space Plus False, Atom is_word Plus True] True ?t
      = Some ([takeWhile is_word ?u], dropWhile is_word ?u)"
    using match_here_Plus_greedy [OF sp 2, of False True] by simp
  have "match_here False package_pat False (''package'' @ ?t)
      = match_here False [Atom is_space Plus False, Atom is_word Plus True] True ?t"
    unfolding package_pat_def match_here_lit by simp
  with 3 s name show ?thesis by simp
qed

lemma match_package_None:
  assumes "declaration_at s = None"
  shows "match_here False package_pat False s = None"
proof (rule ccontr)
  assume "match_here False package_pat False s \<noteq> None"
  then obtain gs r where "match_here False package_pat False s = Some (gs, r)" by auto
  from match_here_sound [OF this] obtain w where s: "s = w @ r" and w: "matches package_pat w"
    by blast
  from w obtain ws nm where w': "w = ''package'' @ ws @ nm" and ws: "ws \<noteq> []" "list_all is_space ws"
    and nm: "nm \<noteq> []" "list_all is_word nm"
    unfolding matches_package_pat by blast
  from nm obtain x nm' where x: "nm = x # nm'" "is_word x" by (cases nm) auto
  then have nsp: "\<not> is_space (hd (nm @ r))" by (simp add: word_not_space)
  from ws obtain y ws' where y: "ws = y # ws'" "is_space y" by (cases ws) auto
  have t: "drop 7 s = ws @ nm @ r" and p: "take 7 s = ''package''"
    by (simp_all add: s w')
  have sp: "takeWhile is_space (drop 7 s) \<noteq> []"
    by (simp add: t y)
  have "dropWhile is_space (drop 7 s) = nm @ r"
    unfolding t using ws(2) nsp by (intro dropWhile_run) simp_all
  then have "takeWhile is_word (dropWhile is_space (drop 7 s)) \<noteq> []"
    by (simp add: x)
  with p sp have "declaration_at s \<noteq> None"
    by (simp add: declaration_at_def Let_def)
  with assms show False by simp
qed

lemma declaration_at_Nil: "declaration_at [] = None"
  by (simp add: declaration_at_def)

lemma package_of_first:
  assumes d: "declaration_at (drop n content) = Some name"
    and first: "\<forall>j<n. declaration_at (drop j content) = None"
  shows "package_of content = Some name"
proof -
  have n: "n \<le> length content"
  proof (rule ccontr)
    assume "\<not> n \<le> length content"
    then have "drop n content = []" by simp
    with d show False by (simp add: declaration_at_Nil)
  qed
  have none: "\<forall>j<n. match_here False package_pat False (drop j content) = None"
    using first by (simp add: match_package_None)
  from search_at_leftmost [OF n match_package_Some [OF d] none, of 0]
  show ?thesis
    by (simp add: package_of_def re_search_def grp_at_def)
qed

lemma package_of_None:
  assumes "\<forall>j. declaration_at (drop j content) = None"
  shows "package_of content = None"
proof -
  from assms have "\<forall>j \<le> length content. match_here False package_pat False (drop j content) = None"
    by (simp add: match_package_None)
  then have "search_at package_pat False 0 content = None"
    by (simp only: search_at_None_iff)
  then show ?thesis by (simp add: package_of_def re_search_def)
qed

lemma no_declaration_iff:
  "(\<forall>j. declaration_at (drop j content) = None)
     \<longleftrightarrow> list_all (\<lambda>j. declaration_at (drop j content) = None) [0..<length content]"
proof
  assume "\<forall>j. declaration_at (drop j content) = None"
  then show "list_all (\<lambda>j. declaration_at (drop j content) = None) [0..<length content]"
    by (simp add: list_all_iff)
next
  assume a: "list_all (\<lambda>j. declaration_at (drop j content) = None) [0..<length content]"
  show "\<forall>j. declaration_at (drop j content) = None"
  proof
    fix j
    show "declaration_at (drop j content) = None"
    proof (cases "j < length content")
      case True
      with a show ?thesis by (simp add: list_all_iff)
    next
      case False
      then show ?thesis by (simp add: declaration_at_Nil)
    qed
  qed
qed

lemma all_less_list_all: "(\<forall>j<n. P j) \<longleftrightarrow> list_all P [0..<n]"
  by (auto simp: list_all_iff)

lemma scanned_packages_first:
  assumes "declaration_at (drop n content) = Some name"
    and "\<forall>j<n. declaration_at (drop j content) = None"
  shows "packages (scanned relpath file_path content self)
       = add_package name (relpath file_path (root_dir self)) (packages self)"
  by (simp add: scanned_def package_of_first [OF assms])

lemma scanned_root [simp]: "root_dir (scanned relpath file_path content self) = root_dir self"
  by (simp add: scanned_def)

lemma two_declarations_a:
  "declaration_at (drop 2 ''x package a package b'') = Some ''a''"
  by code_simp

lemma two_declarations_before:
  "list_all (\<lambda>j. declaration_at (drop j ''x package a package b'') = None) [0..<2]"
  by code_simp

lemma no_declaration_text:
  "list_all (\<lambda>j. declaration_at (drop j ''packagemain pack age'') = None)
     [0..<length ''packagemain pack age'']"
  by code_simp



subsection \<open>The words of a pattern, with their groups\<close>

primrec gmatches :: "pattern \<Rightarrow> string \<Rightarrow> string list \<Rightarrow> bool" where
  "gmatches [] w gs = (w = [] \<and> gs = [])"
| "gmatches (a # as) w gs =
     list_ex (\<lambda>k. reps_ok (qnt a) k \<and> list_all (cls a) (take k w) \<and>
                (if grp a then gs \<noteq> [] \<and> hd gs = take k w \<and> gmatches as (drop k w) (tl gs)
                 else gmatches as (drop k w) gs))
       [0..<Suc (length w)]"

lemma gmatches_Cons_iff:
  "gmatches (a # as) w gs \<longleftrightarrow>
     (\<exists>u v gs'. w = u @ v \<and> reps_ok (qnt a) (length u) \<and> list_all (cls a) u \<and> gmatches as v gs'
        \<and> gs = (if grp a then u # gs' else gs'))"
proof
  assume "gmatches (a # as) w gs"
  then obtain k where k: "k \<le> length w" "reps_ok (qnt a) k" "list_all (cls a) (take k w)"
    and g: "if grp a then gs \<noteq> [] \<and> hd gs = take k w \<and> gmatches as (drop k w) (tl gs)
       else gmatches as (drop k w) gs"
    by (auto simp: list_ex_iff less_Suc_eq_le simp del: upt_Suc)
  show "\<exists>u v gs'. w = u @ v \<and> reps_ok (qnt a) (length u) \<and> list_all (cls a) u \<and> gmatches as v gs'
        \<and> gs = (if grp a then u # gs' else gs')"
  proof (cases "grp a")
    case True
    with g have "gs \<noteq> []" "hd gs = take k w" "gmatches as (drop k w) (tl gs)" by simp_all
    with k True show ?thesis
      by (intro exI [of _ "take k w"] exI [of _ "drop k w"] exI [of _ "tl gs"]) (cases gs, simp_all)
  next
    case False
    with g have "gmatches as (drop k w) gs" by simp
    with k False show ?thesis
      by (intro exI [of _ "take k w"] exI [of _ "drop k w"] exI [of _ gs]) simp
  qed
next
  assume "\<exists>u v gs'. w = u @ v \<and> reps_ok (qnt a) (length u) \<and> list_all (cls a) u \<and> gmatches as v gs'
        \<and> gs = (if grp a then u # gs' else gs')"
  then obtain u v gs' where "w = u @ v" "reps_ok (qnt a) (length u)" "list_all (cls a) u"
    "gmatches as v gs'" "gs = (if grp a then u # gs' else gs')"
    by blast
  then show "gmatches (a # as) w gs"
    by (auto simp: list_ex_iff simp del: upt_Suc intro!: bexI [of _ "length u"])
qed

declare gmatches.simps(2) [simp del]

lemma gmatches_atom_Cons:
  "gmatches (Atom c q g # p) w gs \<longleftrightarrow>
     (\<exists>u v gs'. w = u @ v \<and> (reps_ok q (length u) \<and> list_all c u) \<and> gmatches p v gs'
        \<and> gs = (if g then u # gs' else gs'))"
  unfolding gmatches_Cons_iff atom.sel by (simp only: conj_assoc)

lemma gmatches_lit_Cons:
  "gmatches (Atom (\<lambda>x. x = c) One False # p) w gs \<longleftrightarrow> (\<exists>v. w = c # v \<and> gmatches p v gs)"
proof -
  have e: "reps_ok One (length u) \<and> list_all (\<lambda>x. x = c) u \<longleftrightarrow> u = [c]" for u :: string
    by (cases u) auto
  show ?thesis
    unfolding gmatches_atom_Cons e by simp
qed

lemma gmatches_lit_append:
  "gmatches (lit u @ p) w gs \<longleftrightarrow> (\<exists>v. w = u @ v \<and> gmatches p v gs)"
proof (induction u arbitrary: w)
  case Nil
  then show ?case by (simp add: lit_def)
next
  case (Cons c u)
  have "gmatches (lit (c # u) @ p) w gs \<longleftrightarrow> (\<exists>v. w = c # v \<and> gmatches (lit u @ p) v gs)"
    unfolding lit_def list.map append_Cons by (rule gmatches_lit_Cons)
  then show ?case unfolding Cons.IH by auto
qed

lemma gmatches_lit: "gmatches (lit u) w gs \<longleftrightarrow> w = u \<and> gs = []"
  using gmatches_lit_append [of u "[]" w gs] by auto

lemma match_here_gsound:
  "match_here adv p moved s = Some (gs, r) \<Longrightarrow> \<exists>w. s = w @ r \<and> gmatches p w gs"
proof (induction p arbitrary: moved s gs)
  case Nil
  then show ?case by (auto split: if_splits)
next
  case (Cons a as)
  from Cons.prems obtain k gs' where k: "k \<in> set (counts (qnt a) (length (takeWhile (cls a) s)))"
    and m: "match_here adv as (moved \<or> 0 < k) (drop k s) = Some (gs', r)"
    and gs: "gs = (if grp a then take k s # gs' else gs')"
    by (auto dest!: first_some_SomeD split: option.splits)
  from Cons.IH [OF m] obtain w' where w': "drop k s = w' @ r" "gmatches as w' gs'" by blast
  from k have kn: "k \<le> length (takeWhile (cls a) s)" and ok: "reps_ok (qnt a) k"
    by (simp_all add: counts_set)
  have all: "list_all (cls a) (take k s)"
    using kn by (rule list_all_take_takeWhile)
  have len: "length (take k s) = k"
    using kn length_takeWhile_le [of "cls a" s] by simp
  have "s = take k s @ drop k s" by simp
  with w' have "s = (take k s @ w') @ r" by simp
  moreover have "gmatches (a # as) (take k s @ w') gs"
    unfolding gmatches_Cons_iff
    by (rule exI [of _ "take k s"], rule exI [of _ w'], rule exI [of _ gs'])
      (simp add: ok all len w' gs del: length_take)
  ultimately show ?case by (intro exI [of _ "take k s @ w'"] conjI)
qed

subsection \<open>Every match of an iterated search is a word of the pattern\<close>

lemma search_at_gsound:
  "search_at p adv pos s = Some (i, g, r) \<Longrightarrow>
     \<exists>pre w gs. s = pre @ w @ r \<and> g = w # gs \<and> gmatches p w gs"
proof (induction s arbitrary: adv pos)
  case Nil
  from Nil obtain gs where m: "match_here adv p False [] = Some (gs, r)" and g: "g = take (length ([] :: string) - length r) [] # gs"
    by (auto simp: search_at.simps [of _ _ _ "[]"] split: option.splits)
  from match_here_gsound [OF m] obtain w where "[] = w @ r" "gmatches p w gs" by blast
  with g show ?case by (intro exI [of _ "[]"] exI [of _ w] exI [of _ gs]) simp
next
  case (Cons c cs)
  show ?case
  proof (cases "match_here adv p False (c # cs)")
    case (Some x)
    obtain gs r' where x: "x = (gs, r')" by (cases x)
    with Some Cons.prems have g: "g = take (length (c # cs) - length r) (c # cs) # gs" and "r' = r"
      by (auto simp: search_at.simps [of _ _ _ "c # cs"])
    with Some x have m: "match_here adv p False (c # cs) = Some (gs, r)" by simp
    from match_here_gsound [OF m] obtain w where w: "c # cs = w @ r" "gmatches p w gs" by blast
    then have "take (length (c # cs) - length r) (c # cs) = w" by simp
    with g w show ?thesis by (intro exI [of _ "[]"] exI [of _ w] exI [of _ gs]) simp
  next
    case None
    with Cons.prems have "search_at p False (Suc pos) cs = Some (i, g, r)"
      by (simp add: search_at.simps [of _ _ _ "c # cs"])
    from Cons.IH [OF this] obtain pre w gs where "cs = pre @ w @ r" "g = w # gs" "gmatches p w gs"
      by blast
    then show ?thesis by (intro exI [of _ "c # pre"] exI [of _ w] exI [of _ gs]) simp
  qed
qed

lemma finditer_from_gsound:
  "m \<in> set (finditer_from p adv pos s) \<Longrightarrow>
     \<exists>pre w gs post. s = pre @ w @ post \<and> fst (snd m) = w # gs \<and> gmatches p w gs"
proof (induction p adv pos s rule: finditer_from.induct)
  case (1 p adv pos s)
  show ?case
  proof (cases "search_at p adv pos s")
    case None
    with "1.prems" show ?thesis by (simp add: finditer_from.simps [of p adv pos s])
  next
    case (Some x)
    obtain i g r where x: "x = (i, g, r)" by (cases x)
    from search_at_gsound [OF Some [unfolded x]] obtain pre w gs
      where s: "s = pre @ w @ r" and g: "g = w # gs" "gmatches p w gs" by blast
    from "1.prems" Some x have "m = (i, g, r) \<or>
        m \<in> set (finditer_from p (length s - (i - pos) = length r) (pos + (length s - length r)) r)"
      by (simp add: finditer_from.simps [of p adv pos s])
    then show ?thesis
    proof
      assume "m = (i, g, r)"
      with s g show ?thesis by (intro exI [of _ pre] exI [of _ w] exI [of _ gs] exI [of _ r]) simp
    next
      assume "m \<in> set (finditer_from p (length s - (i - pos) = length r) (pos + (length s - length r)) r)"
      with "1.IH" Some x have "\<exists>pre w gs post. r = pre @ w @ post \<and> fst (snd m) = w # gs \<and> gmatches p w gs"
        by simp
      then obtain pre' w' gs' post' where
        "r = pre' @ w' @ post'" "fst (snd m) = w' # gs'" "gmatches p w' gs'"
        by (elim exE conjE)
      with s show ?thesis
        by (intro exI [of _ "pre @ w @ pre'"] exI [of _ w'] exI [of _ gs'] exI [of _ post']) simp
    qed
  qed
qed

lemma finditer_gsound:
  "m \<in> set (finditer p s) \<Longrightarrow>
     \<exists>pre w gs post. s = pre @ w @ post \<and> fst (snd m) = w # gs \<and> gmatches p w gs"
  unfolding finditer_def by (rule finditer_from_gsound)

subsection \<open>Interface and struct declarations\<close>

definition decl_pat :: "string \<Rightarrow> pattern" where
  "decl_pat kw =
     lit ''type'' @ [Atom is_space Plus False, Atom is_word Plus True, Atom is_space Plus False] @
     lit kw @ [Atom is_space Star False] @ lit ''{'' @
     [Atom (\<lambda>c. c \<noteq> CHR ''}'') Plus True] @ lit ''}''"

lemma decl_pats: "interface_pat = decl_pat ''interface''" "struct_pat = decl_pat ''struct''"
  by (simp_all only: interface_pat_def struct_pat_def decl_pat_def)

lemma gmatches_decl_pat:
  assumes "gmatches (decl_pat kw) w gs"
  shows "\<exists>ws1 name ws2 ws3 body.
     w = ''type'' @ ws1 @ name @ ws2 @ kw @ ws3 @ ''{'' @ body @ ''}'' \<and> gs = [name, body]
     \<and> ws1 \<noteq> [] \<and> list_all is_space ws1 \<and> name \<noteq> [] \<and> list_all is_word name
     \<and> ws2 \<noteq> [] \<and> list_all is_space ws2 \<and> list_all is_space ws3
     \<and> body \<noteq> [] \<and> list_all (\<lambda>c. c \<noteq> CHR ''}'') body"
proof -
  from assms obtain v1 where w: "w = ''type'' @ v1"
    and 1: "gmatches ([Atom is_space Plus False, Atom is_word Plus True, Atom is_space Plus False] @
     lit kw @ [Atom is_space Star False] @ lit ''{'' @
     [Atom (\<lambda>c. c \<noteq> CHR ''}'') Plus True] @ lit ''}'') v1 gs"
    unfolding decl_pat_def gmatches_lit_append [of "''type''"] by blast
  let ?rest = "lit kw @ [Atom is_space Star False] @ lit ''{'' @
     [Atom (\<lambda>c. c \<noteq> CHR ''}'') Plus True] @ lit ''}''"
  from 1 have "gmatches (Atom is_space Plus False # Atom is_word Plus True # Atom is_space Plus False # ?rest) v1 gs"
    by simp
  then obtain ws1 v2 where v1: "v1 = ws1 @ v2" and ws1: "reps_ok Plus (length ws1)" "list_all is_space ws1"
    and 2: "gmatches (Atom is_word Plus True # Atom is_space Plus False # ?rest) v2 gs"
    unfolding gmatches_atom_Cons [of is_space Plus False] by auto
  from 2 obtain name v3 g3 where v2: "v2 = name @ v3" and name: "reps_ok Plus (length name)" "list_all is_word name"
    and 3: "gmatches (Atom is_space Plus False # ?rest) v3 g3" and gs: "gs = name # g3"
    unfolding gmatches_atom_Cons [of is_word Plus True] by auto
  from 3 obtain ws2 v4 where v3: "v3 = ws2 @ v4" and ws2: "reps_ok Plus (length ws2)" "list_all is_space ws2"
    and 4: "gmatches ?rest v4 g3"
    unfolding gmatches_atom_Cons [of is_space Plus False] by auto
  from 4 obtain v5 where v4: "v4 = kw @ v5"
    and 5: "gmatches ([Atom is_space Star False] @ lit ''{'' @
     [Atom (\<lambda>c. c \<noteq> CHR ''}'') Plus True] @ lit ''}'') v5 g3"
    unfolding gmatches_lit_append [of kw] by blast
  from 5 have "gmatches (Atom is_space Star False # (lit ''{'' @
     [Atom (\<lambda>c. c \<noteq> CHR ''}'') Plus True] @ lit ''}'')) v5 g3"
    by simp
  then obtain ws3 v6 where v5: "v5 = ws3 @ v6" and ws3: "list_all is_space ws3"
    and 6: "gmatches (lit ''{'' @ [Atom (\<lambda>c. c \<noteq> CHR ''}'') Plus True] @ lit ''}'') v6 g3"
    unfolding gmatches_atom_Cons [of is_space Star False] by auto
  from 6 obtain v7 where v6: "v6 = ''{'' @ v7"
    and 7: "gmatches ([Atom (\<lambda>c. c \<noteq> CHR ''}'') Plus True] @ lit ''}'') v7 g3"
    unfolding gmatches_lit_append [of "''{''"] by blast
  from 7 have "gmatches (Atom (\<lambda>c. c \<noteq> CHR ''}'') Plus True # lit ''}'') v7 g3"
    by simp
  then obtain body v8 g8 where v7: "v7 = body @ v8" and body: "reps_ok Plus (length body)"
    "list_all (\<lambda>c. c \<noteq> CHR ''}'') body"
    and 8: "gmatches (lit ''}'') v8 g8" and g3: "g3 = body # g8"
    unfolding gmatches_atom_Cons [of "\<lambda>c. c \<noteq> CHR ''}''" Plus True] by auto
  from 8 have v8: "v8 = ''}''" and g8: "g8 = []"
    unfolding gmatches_lit by simp_all
  have a: "w = ''type'' @ ws1 @ name @ ws2 @ kw @ ws3 @ ''{'' @ body @ ''}''"
    unfolding w v1 v2 v3 v4 v5 v6 v7 v8 ..
  have b: "gs = [name, body]"
    unfolding gs g3 g8 ..
  from ws1 name ws2 body have "ws1 \<noteq> []" "name \<noteq> []" "ws2 \<noteq> []" "body \<noteq> []"
    by auto
  with a b ws1(2) name(2) ws2(2) ws3 body(2) show ?thesis
    by (intro exI [of _ ws1] exI [of _ name] exI [of _ ws2] exI [of _ ws3] exI [of _ body] conjI)
qed

lemma declared_name_text:
  assumes "k \<in> fst ` set (decls (decl_pat kw) q content)"
  shows "\<exists>pre ws1 ws2 ws3 body post.
     content = pre @ ''type'' @ ws1 @ k @ ws2 @ kw @ ws3 @ ''{'' @ body @ ''}'' @ post
     \<and> ws1 \<noteq> [] \<and> list_all is_space ws1 \<and> k \<noteq> [] \<and> list_all is_word k
     \<and> ws2 \<noteq> [] \<and> list_all is_space ws2 \<and> list_all is_space ws3
     \<and> body \<noteq> [] \<and> list_all (\<lambda>c. c \<noteq> CHR ''}'') body"
proof -
  from assms obtain m where m: "m \<in> set (finditer (decl_pat kw) content)" and k: "k = grp_at m 1"
    by (auto simp: decls_def)
  from finditer_gsound [OF m] obtain pre w gs post where
    c: "content = pre @ w @ post" and g: "fst (snd m) = w # gs" and gm: "gmatches (decl_pat kw) w gs"
    by blast
  from gmatches_decl_pat [OF gm] obtain ws1 name ws2 ws3 body where
    w: "w = ''type'' @ ws1 @ name @ ws2 @ kw @ ws3 @ ''{'' @ body @ ''}''" and gs: "gs = [name, body]"
    and r: "ws1 \<noteq> []" "list_all is_space ws1" "name \<noteq> []" "list_all is_word name"
      "ws2 \<noteq> []" "list_all is_space ws2" "list_all is_space ws3"
      "body \<noteq> []" "list_all (\<lambda>c. c \<noteq> CHR ''}'') body"
    by blast
  from k g gs have kn: "k = name" by (simp add: grp_at_def)
  have "content = pre @ ''type'' @ ws1 @ k @ ws2 @ kw @ ws3 @ ''{'' @ body @ ''}'' @ post"
    unfolding c w kn by simp
  with r kn show ?thesis
    by (intro exI [of _ pre] exI [of _ ws1] exI [of _ ws2] exI [of _ ws3] exI [of _ body]
        exI [of _ post] conjI) simp_all
qed

lemma put_all_changed:
  "put_all kvs m k \<noteq> m k \<Longrightarrow> k \<in> fst ` set kvs"
proof (rule ccontr)
  assume c: "put_all kvs m k \<noteq> m k" and "k \<notin> fst ` set kvs"
  then have "map_of (rev kvs) k = None"
    using map_of_eq_None_iff [of "rev kvs" k] by simp
  then have "put_all kvs m k = m k" by (simp add: put_all_apply)
  with c show False by simp
qed

lemma open_brace_body:
  assumes c: "content = a @ ''{'' @ body @ rest" and body: "body \<noteq> []" "list_all (\<lambda>c. c \<noteq> CHR ''}'') body"
    and closed: "\<forall>i<length content. content ! i = CHR ''{'' \<longrightarrow>
        Suc i < length content \<and> content ! Suc i = CHR ''}''"
  shows False
proof -
  from body obtain b bs where b: "body = b # bs" "b \<noteq> CHR ''}''" by (cases body) auto
  have 1: "length a < length content" by (simp add: c)
  have 2: "content ! length a = CHR ''{''" by (simp add: c nth_append)
  have 3: "content ! Suc (length a) = b" by (simp add: c b nth_append)
  from closed 1 2 have "content ! Suc (length a) = CHR ''}''" by blast
  with 3 b show False by simp
qed

lemma empty_bodies_text:
  "list_all (\<lambda>i. ''type X interface {} type Y struct {}'' ! i = CHR ''{'' \<longrightarrow>
        Suc i < length ''type X interface {} type Y struct {}'' \<and>
        ''type X interface {} type Y struct {}'' ! Suc i = CHR ''}'')
     [0..<length ''type X interface {} type Y struct {}'']"
  by code_simp

section \<open>The claims\<close>

text \<open>
  C1. A file whose text is the declaration
  \<^verbatim>\<open>type Shape interface { Area() float64; Perimeter() float64 }\<close> leaves, after
  \<open>analyze_file\<close>, the entry \<open>Shape\<close> of the Interfaces collection holding the single
  method \<open>Area\<close>: the tail \<^verbatim>\<open>[^{]*\<close> of the method pattern runs over the rest of
  the body, so \<open>Perimeter\<close> is never seen. The claimed value \<open>[Area, Perimeter]\<close> is
  not what the code records.
\<close>

theorem shape_interface_methods:
  "\<exists>self'. analyze_file relpath
       (fs(file_path \<mapsto> ''type Shape interface { Area() float64; Perimeter() float64 }''))
       file_path self = Inr self'
     \<and> interfaces self' ''Shape'' = Some [''Area'']"
  by (simp add: analyze_file_eq scanned_def shape_decls put_all_def)




text \<open>
  C9. \<open>analyze_file\<close> only populates: no key leaves any of the five collections, every
  set of Packages keeps its paths, every list of Methods keeps its elements as a prefix,
  and Imports changes at most at the path of the file processed.
\<close>

theorem analyze_file_monotonic:
  assumes "analyze_file relpath fs file_path self = Inr self'"
  shows "dom (packages self) \<subseteq> dom (packages self')
     \<and> dom (interfaces self) \<subseteq> dom (interfaces self')
     \<and> dom (structs self) \<subseteq> dom (structs self')
     \<and> dom (methods self) \<subseteq> dom (methods self')
     \<and> dom (imports self) \<subseteq> dom (imports self')
     \<and> (\<forall>k files. packages self k = Some files \<longrightarrow>
           (\<exists>files'. packages self' k = Some files' \<and> files \<subseteq> files'))
     \<and> (\<forall>k ms. methods self k = Some ms \<longrightarrow> (\<exists>ms'. methods self' k = Some (ms @ ms')))
     \<and> (\<forall>p. p \<noteq> file_path \<longrightarrow> imports self' p = imports self p)"
proof -
  from assms obtain content where c: "fs file_path = Some content"
    by (auto simp: analyze_file_def split: option.splits)
  with assms have s: "self' = scanned relpath file_path content self"
    by (simp add: analyze_file_eq)
  have pk: "\<forall>k files. packages self k = Some files \<longrightarrow>
           (\<exists>files'. packages self' k = Some files' \<and> files \<subseteq> files')"
    by (auto simp: s scanned_def add_package_apply split: option.splits)
  have ms: "\<forall>k ms. methods self k = Some ms \<longrightarrow> (\<exists>ms'. methods self' k = Some (ms @ ms'))"
    by (auto simp: s scanned_def append_all_apply)
  have im: "\<forall>p. p \<noteq> file_path \<longrightarrow> imports self' p = imports self p"
    by (simp add: s scanned_def)
  have d1: "dom (packages self) \<subseteq> dom (packages self')"
    using pk by (fastforce simp: dom_def)
  have d2: "dom (interfaces self) \<subseteq> dom (interfaces self')"
    by (simp add: s scanned_def dom_put_all)
  have d3: "dom (structs self) \<subseteq> dom (structs self')"
    by (simp add: s scanned_def dom_put_all)
  have d4: "dom (methods self) \<subseteq> dom (methods self')"
    by (simp add: s scanned_def dom_append_all)
  have d5: "dom (imports self) \<subseteq> dom (imports self')"
    by (auto simp: s scanned_def)
  from pk ms im d1 d2 d3 d4 d5 show ?thesis by (intro conjI)
qed


definition seen :: analyzer where
  "seen = (init ''/r'')\<lparr>packages := [''main'' \<mapsto> {''a.go''}], methods := [''T'' \<mapsto> [''M'']],
     imports := [''/r/a.go'' \<mapsto> {''fmt''}]\<rparr>"

theorem analyze_file_monotonic_witness:
  "\<exists>self'. analyze_file (\<lambda>p r. p) [''/r/b.go'' \<mapsto> ''package main''] ''/r/b.go'' seen = Inr self'
     \<and> ''main'' \<in> dom (packages self') \<and> ''T'' \<in> dom (methods self')
     \<and> (\<exists>files'. packages self' ''main'' = Some files' \<and> {''a.go''} \<subseteq> files')
     \<and> (\<exists>ms'. methods self' ''T'' = Some ([''M''] @ ms'))
     \<and> imports self' ''/r/a.go'' = Some {''fmt''}"
proof -
  let ?fs = "[''/r/b.go'' \<mapsto> ''package main'']"
  let ?s = "scanned (\<lambda>p r. p) ''/r/b.go'' ''package main'' seen"
  have r: "analyze_file (\<lambda>p r. p) ?fs ''/r/b.go'' seen = Inr ?s"
    by (rule analyze_file_eq) simp
  note m = analyze_file_monotonic [OF r]
  have pk: "packages seen ''main'' = Some {''a.go''}" by (simp add: seen_def)
  have ms: "methods seen ''T'' = Some [''M'']" by (simp add: seen_def)
  have im: "imports seen ''/r/a.go'' = Some {''fmt''}" by (simp add: seen_def)
  from m pk have 1: "\<exists>files'. packages ?s ''main'' = Some files' \<and> {''a.go''} \<subseteq> files'"
    by blast
  from m ms have 2: "\<exists>ms'. methods ?s ''T'' = Some ([''M''] @ ms')"
    by blast
  from m have "imports ?s ''/r/a.go'' = imports seen ''/r/a.go''"
    by simp
  with im have 3: "imports ?s ''/r/a.go'' = Some {''fmt''}" by simp
  from 1 have 4: "''main'' \<in> dom (packages ?s)" by auto
  from 2 have 5: "''T'' \<in> dom (methods ?s)" by auto
  from r 1 2 3 4 5 show ?thesis by (intro exI [of _ ?s] conjI)
qed

text \<open>
  C4. When two files are processed one after the other, every struct name that the second
  file declares ends with the field list of that file's (last) declaration of it,
  whatever the first file or the earlier state held under that name: the later file
  overwrites, nothing is merged. The same holds for the interface names of the second
  file. \<open>last_decl p q content\<close> maps each name declared in \<open>content\<close> to the list
  extracted from its last declaration there.
\<close>

theorem last_write_wins:
  assumes "fs p1 = Some c1" and "fs p2 = Some c2"
  shows "\<exists>s1 s2. analyze_file relpath fs p1 self = Inr s1 \<and> analyze_file relpath fs p2 s1 = Inr s2
     \<and> (\<forall>k v. last_decl struct_pat field_pat c2 k = Some v \<longrightarrow> structs s2 k = Some v)
     \<and> (\<forall>k v. last_decl interface_pat method_sig_pat c2 k = Some v \<longrightarrow> interfaces s2 k = Some v)"
proof -
  let ?s1 = "scanned relpath p1 c1 self"
  let ?s2 = "scanned relpath p2 c2 ?s1"
  have 1: "analyze_file relpath fs p1 self = Inr ?s1"
    using assms(1) by (rule analyze_file_eq)
  have 2: "analyze_file relpath fs p2 ?s1 = Inr ?s2"
    using assms(2) by (rule analyze_file_eq)
  have 3: "\<forall>k v. last_decl struct_pat field_pat c2 k = Some v \<longrightarrow> structs ?s2 k = Some v"
    by (simp add: scanned_def [of relpath p2] put_all_apply last_decl_def)
  have 4: "\<forall>k v. last_decl interface_pat method_sig_pat c2 k = Some v \<longrightarrow> interfaces ?s2 k = Some v"
    by (simp add: scanned_def [of relpath p2] put_all_apply last_decl_def)
  from 1 2 3 4 show ?thesis by (intro exI [of _ ?s1] exI [of _ ?s2] conjI)
qed

theorem last_write_wins_witness:
  "(\<exists>s1 s2. analyze_file (\<lambda>p r. p)
        [''/r/a.go'' \<mapsto> ''type Foo struct { a int }'', ''/r/b.go'' \<mapsto> ''type Foo struct { b string }'']
        ''/r/a.go'' (init ''/r'') = Inr s1
      \<and> analyze_file (\<lambda>p r. p)
        [''/r/a.go'' \<mapsto> ''type Foo struct { a int }'', ''/r/b.go'' \<mapsto> ''type Foo struct { b string }'']
        ''/r/b.go'' s1 = Inr s2
      \<and> structs s2 ''Foo'' = Some [''b''])
   \<and> (\<exists>s1 s2. analyze_file (\<lambda>p r. p)
        [''/r/a.go'' \<mapsto> ''type Foo struct { a int }'', ''/r/b.go'' \<mapsto> ''type Foo struct { b string }'']
        ''/r/b.go'' (init ''/r'') = Inr s1
      \<and> analyze_file (\<lambda>p r. p)
        [''/r/a.go'' \<mapsto> ''type Foo struct { a int }'', ''/r/b.go'' \<mapsto> ''type Foo struct { b string }'']
        ''/r/a.go'' s1 = Inr s2
      \<and> structs s2 ''Foo'' = Some [''a''])"
proof -
  let ?ca = "''type Foo struct { a int }''" and ?cb = "''type Foo struct { b string }''"
  let ?fs = "[''/r/a.go'' \<mapsto> ?ca, ''/r/b.go'' \<mapsto> ?cb]"
  have a: "?fs ''/r/a.go'' = Some ?ca" by simp
  have b: "?fs ''/r/b.go'' = Some ?cb" by simp
  have la: "last_decl struct_pat field_pat ?ca ''Foo'' = Some [''a'']"
    by (simp add: last_decl_def foo_a_decls)
  have lb: "last_decl struct_pat field_pat ?cb ''Foo'' = Some [''b'']"
    by (simp add: last_decl_def foo_b_decls)
  from last_write_wins [of ?fs "''/r/a.go''" ?ca "''/r/b.go''" ?cb "\<lambda>p r. p" "init ''/r''", OF a b] lb
  have 1: "\<exists>s1 s2. analyze_file (\<lambda>p r. p) ?fs ''/r/a.go'' (init ''/r'') = Inr s1
      \<and> analyze_file (\<lambda>p r. p) ?fs ''/r/b.go'' s1 = Inr s2 \<and> structs s2 ''Foo'' = Some [''b'']"
    by blast
  from last_write_wins [of ?fs "''/r/b.go''" ?cb "''/r/a.go''" ?ca "\<lambda>p r. p" "init ''/r''", OF b a] la
  have 2: "\<exists>s1 s2. analyze_file (\<lambda>p r. p) ?fs ''/r/b.go'' (init ''/r'') = Inr s1
      \<and> analyze_file (\<lambda>p r. p) ?fs ''/r/a.go'' s1 = Inr s2 \<and> structs s2 ''Foo'' = Some [''a'']"
    by blast
  from 1 2 show ?thesis by (rule conjI)
qed

text \<open>
  C2. The claim as stated fails: two files that both declare the struct \<open>Foo\<close> leave
  different Structs entries in the two visitation orders.
\<close>

theorem visitation_order_counterexample:
  "(case analyze_directory (\<lambda>p r. p)
       [''/r/a.go'' \<mapsto> ''type Foo struct { a int }'', ''/r/b.go'' \<mapsto> ''type Foo struct { b string }'']
       [(''/r'', [], [''a.go'', ''notes.txt'', ''b.go''])] (init ''/r'')
    of Inl e \<Rightarrow> None | Inr s \<Rightarrow> structs s ''Foo'') = Some [''b'']
   \<and> (case analyze_directory (\<lambda>p r. p)
       [''/r/a.go'' \<mapsto> ''type Foo struct { a int }'', ''/r/b.go'' \<mapsto> ''type Foo struct { b string }'']
       [(''/r'', [], [''b.go'', ''notes.txt'', ''a.go''])] (init ''/r'')
    of Inl e \<Rightarrow> None | Inr s \<Rightarrow> structs s ''Foo'') = Some [''a'']"
proof -
  let ?fs = "[''/r/a.go'' \<mapsto> ''type Foo struct { a int }'', ''/r/b.go'' \<mapsto> ''type Foo struct { b string }'']"
  have ab: "set [''/r/a.go'', ''/r/b.go''] \<subseteq> dom ?fs" by simp
  have ba: "set [''/r/b.go'', ''/r/a.go''] \<subseteq> dom ?fs" by simp
  show ?thesis
    unfolding analyze_directory_paths go_paths_ab for_each_readable [OF ab] for_each_readable [OF ba]
    by (simp add: scan_path_def scanned_def put_all_def foo_a_decls foo_b_decls)
qed

text \<open>
  C2, amended. For two walks that visit the same source files in any two orders, all of
  them readable, \<open>analyze_directory\<close> ends with the same Packages and the same Imports,
  with the same keys in Interfaces, Structs and Methods, with Methods lists that hold the
  same elements the same number of times (their order may differ), and with the same
  Interfaces (Structs) entry under every name on whose value the files that declare it
  agree, in particular under every name that a single file declares. Only the entry of a
  name that several files declare differently depends on the order.
\<close>

theorem visitation_order_independent:
  assumes "mset (go_paths walk') = mset (go_paths walk)"
    and "set (go_paths walk) \<subseteq> dom fs"
  shows "\<exists>s s'. analyze_directory relpath fs walk self = Inr s
     \<and> analyze_directory relpath fs walk' self = Inr s'
     \<and> packages s = packages s' \<and> imports s = imports s'
     \<and> dom (interfaces s) = dom (interfaces s') \<and> dom (structs s) = dom (structs s')
     \<and> dom (methods s) = dom (methods s')
     \<and> (\<forall>k. map_option mset (methods s k) = map_option mset (methods s' k))
     \<and> (\<forall>k. (\<forall>p\<in>set (go_paths walk). \<forall>q\<in>set (go_paths walk). \<forall>c d v w.
               fs p = Some c \<and> fs q = Some d
               \<and> last_decl interface_pat method_sig_pat c k = Some v
               \<and> last_decl interface_pat method_sig_pat d k = Some w \<longrightarrow> v = w)
            \<longrightarrow> interfaces s k = interfaces s' k)
     \<and> (\<forall>k. (\<forall>p\<in>set (go_paths walk). \<forall>q\<in>set (go_paths walk). \<forall>c d v w.
               fs p = Some c \<and> fs q = Some d
               \<and> last_decl struct_pat field_pat c k = Some v
               \<and> last_decl struct_pat field_pat d k = Some w \<longrightarrow> v = w)
            \<longrightarrow> structs s k = structs s' k)"
proof -
  let ?ps = "go_paths walk" and ?ps' = "go_paths walk'"
  let ?s = "fold (scan_path relpath fs) ?ps self" and ?s' = "fold (scan_path relpath fs) ?ps' self"
  from assms(1) have set_eq: "set ?ps' = set ?ps" by (rule mset_eq_setD)
  with assms(2) have r': "set ?ps' \<subseteq> dom fs" by simp
  have 1: "analyze_directory relpath fs walk self = Inr ?s"
    by (simp add: analyze_directory_paths for_each_readable [OF assms(2)])
  have 2: "analyze_directory relpath fs walk' self = Inr ?s'"
    by (simp add: analyze_directory_paths for_each_readable [OF r'])
  have 3: "packages ?s = packages ?s'"
    unfolding fold_scan_packages
    using fold_multiset_equiv [OF pkg_step_commute assms(1) [symmetric]] by simp
  have 4: "imports ?s = imports ?s'"
    unfolding fold_scan_imports
    using fold_multiset_equiv [OF imp_step_commute assms(1) [symmetric]] by simp
  have 5: "dom (interfaces ?s) = dom (interfaces ?s')"
    by (simp add: fold_scan_interfaces_dom set_eq)
  have 6: "dom (structs ?s) = dom (structs ?s')"
    by (simp add: fold_scan_structs_dom set_eq)
  have 7: "dom (methods ?s) = dom (methods ?s')"
    by (simp add: fold_scan_methods_dom set_eq)
  have 8: "\<forall>k. map_option mset (methods ?s k) = map_option mset (methods ?s' k)"
    using fold_scan_methods_mset [OF assms(1), of relpath fs self] by simp
  have 9: "\<forall>k. (\<forall>p\<in>set ?ps. \<forall>q\<in>set ?ps. \<forall>c d v w.
               fs p = Some c \<and> fs q = Some d
               \<and> last_decl interface_pat method_sig_pat c k = Some v
               \<and> last_decl interface_pat method_sig_pat d k = Some w \<longrightarrow> v = w)
            \<longrightarrow> interfaces ?s k = interfaces ?s' k"
  proof (intro allI impI)
    fix k
    assume a: "\<forall>p\<in>set ?ps. \<forall>q\<in>set ?ps. \<forall>c d v w.
               fs p = Some c \<and> fs q = Some d
               \<and> last_decl interface_pat method_sig_pat c k = Some v
               \<and> last_decl interface_pat method_sig_pat d k = Some w \<longrightarrow> v = w"
    have agree: "\<forall>p\<in>set ?ps. \<forall>q\<in>set ?ps. \<forall>v w.
        decl_in interface_pat method_sig_pat fs p k = Some v
        \<and> decl_in interface_pat method_sig_pat fs q k = Some w \<longrightarrow> v = w"
    proof (intro ballI allI impI)
      fix p q v w
      assume p: "p \<in> set ?ps" and q: "q \<in> set ?ps"
        and d: "decl_in interface_pat method_sig_pat fs p k = Some v
          \<and> decl_in interface_pat method_sig_pat fs q k = Some w"
      from d obtain c c' where "fs p = Some c" "fs q = Some c'"
        "last_decl interface_pat method_sig_pat c k = Some v"
        "last_decl interface_pat method_sig_pat c' k = Some w"
        by (auto simp: decl_in_def split: option.splits)
      with a p q show "v = w" by blast
    qed
    have "interfaces (fold (scan_path relpath fs) ?ps' self) k
        = interfaces (fold (scan_path relpath fs) ?ps self) k"
      by (rule fold_agree [where get = "\<lambda>s. interfaces s k" and f = "scan_path relpath fs"
            and d = "\<lambda>p. decl_in interface_pat method_sig_pat fs p k",
            OF scan_path_interfaces set_eq agree])
    then show "interfaces ?s k = interfaces ?s' k" by simp
  qed
  have 10: "\<forall>k. (\<forall>p\<in>set ?ps. \<forall>q\<in>set ?ps. \<forall>c d v w.
               fs p = Some c \<and> fs q = Some d
               \<and> last_decl struct_pat field_pat c k = Some v
               \<and> last_decl struct_pat field_pat d k = Some w \<longrightarrow> v = w)
            \<longrightarrow> structs ?s k = structs ?s' k"
  proof (intro allI impI)
    fix k
    assume a: "\<forall>p\<in>set ?ps. \<forall>q\<in>set ?ps. \<forall>c d v w.
               fs p = Some c \<and> fs q = Some d
               \<and> last_decl struct_pat field_pat c k = Some v
               \<and> last_decl struct_pat field_pat d k = Some w \<longrightarrow> v = w"
    have agree: "\<forall>p\<in>set ?ps. \<forall>q\<in>set ?ps. \<forall>v w.
        decl_in struct_pat field_pat fs p k = Some v
        \<and> decl_in struct_pat field_pat fs q k = Some w \<longrightarrow> v = w"
    proof (intro ballI allI impI)
      fix p q v w
      assume p: "p \<in> set ?ps" and q: "q \<in> set ?ps"
        and d: "decl_in struct_pat field_pat fs p k = Some v
          \<and> decl_in struct_pat field_pat fs q k = Some w"
      from d obtain c c' where "fs p = Some c" "fs q = Some c'"
        "last_decl struct_pat field_pat c k = Some v"
        "last_decl struct_pat field_pat c' k = Some w"
        by (auto simp: decl_in_def split: option.splits)
      with a p q show "v = w" by blast
    qed
    have "structs (fold (scan_path relpath fs) ?ps' self) k
        = structs (fold (scan_path relpath fs) ?ps self) k"
      by (rule fold_agree [where get = "\<lambda>s. structs s k" and f = "scan_path relpath fs"
            and d = "\<lambda>p. decl_in struct_pat field_pat fs p k",
            OF scan_path_structs set_eq agree])
    then show "structs ?s k = structs ?s' k" by simp
  qed
  from 1 2 3 4 5 6 7 8 9 10 show ?thesis by (intro exI [of _ ?s] exI [of _ ?s'] conjI)
qed

theorem visitation_order_independent_witness:
  "\<exists>s s'. analyze_directory (\<lambda>p r. p) [''/r/a.go'' \<mapsto> sample_a, ''/r/b.go'' \<mapsto> sample_b]
       [(''/r'', [], [''a.go'', ''notes.txt'', ''b.go''])] (init ''/r'') = Inr s
     \<and> analyze_directory (\<lambda>p r. p) [''/r/a.go'' \<mapsto> sample_a, ''/r/b.go'' \<mapsto> sample_b]
       [(''/r'', [], [''b.go'', ''notes.txt'', ''a.go''])] (init ''/r'') = Inr s'
     \<and> packages s = packages s' \<and> packages s ''main'' = Some {''/r/a.go'', ''/r/b.go''}
     \<and> imports s = imports s' \<and> imports s ''/r/a.go'' = Some {''fmt''}
     \<and> map_option mset (methods s ''Foo'') = map_option mset (methods s' ''Foo'')
     \<and> methods s ''Foo'' = Some [''A'', ''B''] \<and> methods s' ''Foo'' = Some [''B'', ''A'']
     \<and> structs s ''Bar'' = structs s' ''Bar'' \<and> structs s ''Bar'' = Some [''x'']"
proof -
  let ?fs = "[''/r/a.go'' \<mapsto> sample_a, ''/r/b.go'' \<mapsto> sample_b]"
  let ?w = "[(''/r'', [], [''a.go'', ''notes.txt'', ''b.go''])]"
  let ?w' = "[(''/r'', [], [''b.go'', ''notes.txt'', ''a.go''])]"
  let ?i = "init ''/r''"
  have m: "mset (go_paths ?w') = mset (go_paths ?w)" by (simp add: go_paths_ab)
  have d: "set (go_paths ?w) \<subseteq> dom ?fs" by (simp add: go_paths_ab)
  have ab: "set [''/r/a.go'', ''/r/b.go''] \<subseteq> dom ?fs" by simp
  have ba: "set [''/r/b.go'', ''/r/a.go''] \<subseteq> dom ?fs" by simp
  obtain s s' where 1: "analyze_directory (\<lambda>p r. p) ?fs ?w ?i = Inr s"
    and 2: "analyze_directory (\<lambda>p r. p) ?fs ?w' ?i = Inr s'"
    and 3: "packages s = packages s'" and 4: "imports s = imports s'"
    and 8: "\<forall>k. map_option mset (methods s k) = map_option mset (methods s' k)"
    and 10: "\<forall>k. (\<forall>p\<in>set (go_paths ?w). \<forall>q\<in>set (go_paths ?w). \<forall>c d v w.
               ?fs p = Some c \<and> ?fs q = Some d
               \<and> last_decl struct_pat field_pat c k = Some v
               \<and> last_decl struct_pat field_pat d k = Some w \<longrightarrow> v = w)
            \<longrightarrow> structs s k = structs s' k"
    using visitation_order_independent [of ?w' ?w ?fs "\<lambda>p r. p" ?i, OF m d]
    by (elim exE conjE)
  have "analyze_directory (\<lambda>p r. p) ?fs ?w ?i
      = Inr (fold (scan_path (\<lambda>p r. p) ?fs) [''/r/a.go'', ''/r/b.go''] ?i)"
    unfolding analyze_directory_paths go_paths_ab for_each_readable [OF ab] ..
  with 1 have s: "s = fold (scan_path (\<lambda>p r. p) ?fs) [''/r/a.go'', ''/r/b.go''] ?i" by simp
  have "analyze_directory (\<lambda>p r. p) ?fs ?w' ?i
      = Inr (fold (scan_path (\<lambda>p r. p) ?fs) [''/r/b.go'', ''/r/a.go''] ?i)"
    unfolding analyze_directory_paths go_paths_ab for_each_readable [OF ba] ..
  with 2 have s': "s' = fold (scan_path (\<lambda>p r. p) ?fs) [''/r/b.go'', ''/r/a.go''] ?i" by simp
  have pk: "packages s ''main'' = Some {''/r/a.go'', ''/r/b.go''}"
    unfolding s fold_scan_packages
    by (auto simp: pkg_step_def sample_package add_package_def init_def)
  have ne: "findall import_pat sample_a \<noteq> []"
    using sample_import_paths(1) by auto
  have iset: "import_set sample_a = {''fmt''}"
    unfolding import_set_paths sample_import_paths by simp
  have im: "imports s ''/r/a.go'' = Some {''fmt''}"
    unfolding s fold_scan_imports
    by (simp add: imp_step_def ne iset)
  have ms: "methods s ''Foo'' = Some [''A'', ''B'']"
    unfolding s fold_scan_methods
    by (simp add: method_entries_def appended_def sample_methods init_def)
  have ms': "methods s' ''Foo'' = Some [''B'', ''A'']"
    unfolding s' fold_scan_methods
    by (simp add: method_entries_def appended_def sample_methods init_def)
  have st: "structs s ''Bar'' = Some [''x'']"
    unfolding s
    by (simp add: scan_path_structs decl_in_def last_decl_def sample_structs)
  have "\<forall>p\<in>set (go_paths ?w). \<forall>q\<in>set (go_paths ?w). \<forall>c d v w.
               ?fs p = Some c \<and> ?fs q = Some d
               \<and> last_decl struct_pat field_pat c ''Bar'' = Some v
               \<and> last_decl struct_pat field_pat d ''Bar'' = Some w \<longrightarrow> v = w"
    unfolding go_paths_ab
    by (auto simp: last_decl_def sample_structs)
  with 10 have eq: "structs s ''Bar'' = structs s' ''Bar''" by blast
  from 8 have me: "map_option mset (methods s ''Foo'') = map_option mset (methods s' ''Foo'')" ..
  from 1 2 3 pk 4 im me ms ms' eq st show ?thesis
    by (intro exI [of _ s] exI [of _ s'] conjI)
qed

text \<open>
  C3. The claim as stated fails on its own example: in \<^verbatim>\<open>import ( )\<close> the block
  pattern matches with an empty group, no quoted path is found in it, and \<open>analyze_file\<close>
  creates the Imports entry of the file, holding the empty set.
\<close>

theorem empty_import_block_counterexample:
  "findall import_pat ''import ( )'' = [[]] \<and> finditer quoted_pat [] = []
   \<and> (case analyze_file (\<lambda>p r. p) [''/r/a.go'' \<mapsto> ''import ( )''] ''/r/a.go'' (init ''/r'')
       of Inl e \<Rightarrow> None | Inr s \<Rightarrow> Some (imports s ''/r/a.go'')) = Some (Some {})"
proof -
  have "[''/r/a.go'' \<mapsto> ''import ( )''] ''/r/a.go'' = Some ''import ( )''" by simp
  from analyze_file_eq [of "[''/r/a.go'' \<mapsto> ''import ( )'']" "''/r/a.go''" "''import ( )''"
      "\<lambda>p r. p" "init ''/r''", OF this]
  have "(case analyze_file (\<lambda>p r. p) [''/r/a.go'' \<mapsto> ''import ( )''] ''/r/a.go'' (init ''/r'')
       of Inl e \<Rightarrow> None | Inr s \<Rightarrow> Some (imports s ''/r/a.go'')) = Some (Some {})"
    by (simp add: scanned_def empty_import_block import_set_def no_quoted_in_empty)
  with empty_import_block no_quoted_in_empty show ?thesis by (intro conjI)
qed

text \<open>
  C3, amended. Let the import scanner find no double-quoted path in the text of a file.
  If the text holds no import block (the word \<open>import\<close>, optional white space, an
  opening parenthesis and, anywhere after it, a closing parenthesis), \<open>analyze_file\<close>
  leaves Imports as it was: the file gets no entry. If the text holds such a block, the
  entry of the file's path is created (or replaced) and holds the empty set.
\<close>

theorem no_import_paths:
  assumes "fs file_path = Some content"
    and "\<forall>block\<in>set (findall import_pat content). finditer quoted_pat block = []"
  shows "\<exists>self'. analyze_file relpath fs file_path self = Inr self'
     \<and> (if \<exists>pre ws body post.
             content = pre @ ''import'' @ ws @ ''('' @ body @ '')'' @ post \<and> list_all is_space ws
        then imports self' = (imports self)(file_path \<mapsto> {})
        else imports self' = imports self)"
proof -
  let ?s = "scanned relpath file_path content self"
  have r: "analyze_file relpath fs file_path self = Inr ?s"
    using assms(1) by (rule analyze_file_eq)
  have e: "import_set content = {}"
    using assms(2) by (rule import_set_empty)
  have iff: "findall import_pat content \<noteq> [] \<longleftrightarrow> (\<exists>pre ws body post.
             content = pre @ ''import'' @ ws @ ''('' @ body @ '')'' @ post \<and> list_all is_space ws)"
    by (simp only: findall_import_Nil_iff not_not)
  have "if findall import_pat content \<noteq> []
      then imports ?s = (imports self)(file_path \<mapsto> {}) else imports ?s = imports self"
    by (simp add: scanned_def e)
  then have "if \<exists>pre ws body post.
             content = pre @ ''import'' @ ws @ ''('' @ body @ '')'' @ post \<and> list_all is_space ws
        then imports ?s = (imports self)(file_path \<mapsto> {})
        else imports ?s = imports self"
    by (simp only: iff)
  with r show ?thesis by (intro exI [of _ ?s] conjI)
qed

theorem no_import_paths_witness:
  "\<exists>self'. analyze_file (\<lambda>p r. p) [''/r/a.go'' \<mapsto> ''import ( )''] ''/r/a.go'' (init ''/r'') = Inr self'
     \<and> imports self' = [''/r/a.go'' \<mapsto> {}]"
proof -
  let ?c = "''import ( )''"
  have fs: "[''/r/a.go'' \<mapsto> ?c] ''/r/a.go'' = Some ?c" by simp
  have z: "\<forall>block\<in>set (findall import_pat ?c). finditer quoted_pat block = []"
    unfolding empty_import_block by (simp add: no_quoted_in_empty)
  have "?c = [] @ ''import'' @ '' '' @ ''('' @ '' '' @ '')'' @ [] \<and> list_all is_space '' ''"
    by (simp add: is_space_def)
  then have b: "\<exists>pre ws body post.
      ?c = pre @ ''import'' @ ws @ ''('' @ body @ '')'' @ post \<and> list_all is_space ws"
    by (intro exI)
  from no_import_paths [of "[''/r/a.go'' \<mapsto> ?c]" "''/r/a.go''" ?c "\<lambda>p r. p" "init ''/r''", OF fs z]
  obtain self' where r: "analyze_file (\<lambda>p r. p) [''/r/a.go'' \<mapsto> ?c] ''/r/a.go'' (init ''/r'') = Inr self'"
    and i: "if \<exists>pre ws body post.
             ?c = pre @ ''import'' @ ws @ ''('' @ body @ '')'' @ post \<and> list_all is_space ws
        then imports self' = (imports (init ''/r''))(''/r/a.go'' \<mapsto> {})
        else imports self' = imports (init ''/r'')"
    by (elim exE conjE)
  from i b have "imports self' = (imports (init ''/r''))(''/r/a.go'' \<mapsto> {})"
    by (simp only: if_True)
  then have "imports self' = [''/r/a.go'' \<mapsto> {}]" by (simp add: init_def)
  with r show ?thesis by (intro exI [of _ self'] conjI)
qed

text \<open>
  C7. A text in which no position shows a package declaration (the word \<open>package\<close>,
  white space, an identifier) leaves Packages as it was. When the text shows
  declarations, the first one alone decides: the relative path of the file is added to
  the set of the name declared there, and no other entry changes.
  \<open>declaration_at\<close> reads a declaration off the text at a position, without the
  matcher.
\<close>

theorem package_first_declaration:
  assumes "fs file_path = Some content"
  shows "\<exists>self'. analyze_file relpath fs file_path self = Inr self'
     \<and> ((\<forall>j. declaration_at (drop j content) = None) \<longrightarrow> packages self' = packages self)
     \<and> (\<forall>n name. declaration_at (drop n content) = Some name
            \<and> (\<forall>j<n. declaration_at (drop j content) = None) \<longrightarrow>
          packages self' name
            = Some (insert (relpath file_path (root_dir self))
                      (case packages self name of None \<Rightarrow> {} | Some files \<Rightarrow> files))
          \<and> (\<forall>k. k \<noteq> name \<longrightarrow> packages self' k = packages self k))"
proof -
  let ?s = "scanned relpath file_path content self"
  have r: "analyze_file relpath fs file_path self = Inr ?s"
    using assms by (rule analyze_file_eq)
  have 1: "(\<forall>j. declaration_at (drop j content) = None) \<longrightarrow> packages ?s = packages self"
    by (simp add: scanned_def package_of_None)
  have 2: "\<forall>n name. declaration_at (drop n content) = Some name
            \<and> (\<forall>j<n. declaration_at (drop j content) = None) \<longrightarrow>
          packages ?s name
            = Some (insert (relpath file_path (root_dir self))
                      (case packages self name of None \<Rightarrow> {} | Some files \<Rightarrow> files))
          \<and> (\<forall>k. k \<noteq> name \<longrightarrow> packages ?s k = packages self k)"
  proof (intro allI impI)
    fix n name
    assume a: "declaration_at (drop n content) = Some name
            \<and> (\<forall>j<n. declaration_at (drop j content) = None)"
    from a have d: "declaration_at (drop n content) = Some name" ..
    from a have f: "\<forall>j<n. declaration_at (drop j content) = None" ..
    have "packages ?s = add_package name (relpath file_path (root_dir self)) (packages self)"
      using d f by (rule scanned_packages_first)
    then show "packages ?s name
            = Some (insert (relpath file_path (root_dir self))
                      (case packages self name of None \<Rightarrow> {} | Some files \<Rightarrow> files))
          \<and> (\<forall>k. k \<noteq> name \<longrightarrow> packages ?s k = packages self k)"
      by (simp add: add_package_apply)
  qed
  from r 1 2 show ?thesis by (intro exI [of _ ?s] conjI)
qed

theorem package_first_declaration_witness:
  "(\<exists>self'. analyze_file (\<lambda>p r. p) [''/r/a.go'' \<mapsto> ''x package a package b''] ''/r/a.go''
        (init ''/r'') = Inr self'
      \<and> packages self' ''a'' = Some {''/r/a.go''} \<and> packages self' ''b'' = None)
   \<and> (\<exists>self'. analyze_file (\<lambda>p r. p) [''/r/a.go'' \<mapsto> ''packagemain pack age''] ''/r/a.go''
        (init ''/r'') = Inr self'
      \<and> packages self' = Map.empty)"
proof -
  let ?c = "''x package a package b''" and ?d = "''packagemain pack age''"
  have fc: "[''/r/a.go'' \<mapsto> ?c] ''/r/a.go'' = Some ?c" by simp
  have fd: "[''/r/a.go'' \<mapsto> ?d] ''/r/a.go'' = Some ?d" by simp
  obtain s where r: "analyze_file (\<lambda>p r. p) [''/r/a.go'' \<mapsto> ?c] ''/r/a.go'' (init ''/r'') = Inr s"
    and 2: "\<forall>n name. declaration_at (drop n ?c) = Some name
            \<and> (\<forall>j<n. declaration_at (drop j ?c) = None) \<longrightarrow>
          packages s name
            = Some (insert ((\<lambda>p r. p) ''/r/a.go'' (root_dir (init ''/r'')))
                      (case packages (init ''/r'') name of None \<Rightarrow> {} | Some files \<Rightarrow> files))
          \<and> (\<forall>k. k \<noteq> name \<longrightarrow> packages s k = packages (init ''/r'') k)"
    using package_first_declaration [of "[''/r/a.go'' \<mapsto> ?c]" "''/r/a.go''" ?c "\<lambda>p r. p" "init ''/r''", OF fc]
    by (elim exE conjE)
  have "declaration_at (drop 2 ?c) = Some ''a'' \<and> (\<forall>j<2. declaration_at (drop j ?c) = None)"
    unfolding all_less_list_all using two_declarations_a two_declarations_before by (rule conjI)
  with 2 have "packages s ''a''
            = Some (insert ((\<lambda>p r. p) ''/r/a.go'' (root_dir (init ''/r'')))
                      (case packages (init ''/r'') ''a'' of None \<Rightarrow> {} | Some files \<Rightarrow> files))
          \<and> (\<forall>k. k \<noteq> ''a'' \<longrightarrow> packages s k = packages (init ''/r'') k)"
    by blast
  then have a: "packages s ''a'' = Some {''/r/a.go''}" and b: "packages s ''b'' = None"
    by (simp_all add: init_def)
  obtain s' where r': "analyze_file (\<lambda>p r. p) [''/r/a.go'' \<mapsto> ?d] ''/r/a.go'' (init ''/r'') = Inr s'"
    and 1: "(\<forall>j. declaration_at (drop j ?d) = None) \<longrightarrow> packages s' = packages (init ''/r'')"
    using package_first_declaration [of "[''/r/a.go'' \<mapsto> ?d]" "''/r/a.go''" ?d "\<lambda>p r. p" "init ''/r''", OF fd]
    by (elim exE conjE)
  have "\<forall>j. declaration_at (drop j ?d) = None"
    unfolding no_declaration_iff by (rule no_declaration_text)
  with 1 have c: "packages s' = Map.empty" by (simp add: init_def)
  from r a b have x: "\<exists>self'. analyze_file (\<lambda>p r. p) [''/r/a.go'' \<mapsto> ?c] ''/r/a.go''
        (init ''/r'') = Inr self'
      \<and> packages self' ''a'' = Some {''/r/a.go''} \<and> packages self' ''b'' = None"
    by (intro exI [of _ s] conjI)
  from r' c have y: "\<exists>self'. analyze_file (\<lambda>p r. p) [''/r/a.go'' \<mapsto> ?d] ''/r/a.go''
        (init ''/r'') = Inr self' \<and> packages self' = Map.empty"
    by (intro exI [of _ s'] conjI)
  from x y show ?thesis by (rule conjI)
qed



text \<open>
  C10. \<open>analyze_file\<close> records an interface (struct) entry for a name only from a
  declaration of that name whose braces enclose at least one character: whenever the
  entry of a name changes, the text holds \<open>type\<close>, the name, \<open>interface\<close>
  (\<open>struct\<close>), an opening brace, a non-empty body without a closing brace, and the
  closing brace. A declaration with the empty body \<^verbatim>\<open>{}\<close> therefore records
  nothing; in particular a text in which every opening brace is directly followed by its
  closing brace leaves Interfaces and Structs as they were.
\<close>

theorem empty_body_not_recorded:
  assumes "fs file_path = Some content"
  shows "\<exists>self'. analyze_file relpath fs file_path self = Inr self'
     \<and> (\<forall>k. interfaces self' k \<noteq> interfaces self k \<longrightarrow>
           (\<exists>pre ws1 ws2 ws3 body post.
              content = pre @ ''type'' @ ws1 @ k @ ws2 @ ''interface'' @ ws3 @ ''{'' @ body @ ''}'' @ post
              \<and> ws1 \<noteq> [] \<and> list_all is_space ws1 \<and> k \<noteq> [] \<and> list_all is_word k
              \<and> ws2 \<noteq> [] \<and> list_all is_space ws2 \<and> list_all is_space ws3
              \<and> body \<noteq> [] \<and> list_all (\<lambda>c. c \<noteq> CHR ''}'') body))
     \<and> (\<forall>k. structs self' k \<noteq> structs self k \<longrightarrow>
           (\<exists>pre ws1 ws2 ws3 body post.
              content = pre @ ''type'' @ ws1 @ k @ ws2 @ ''struct'' @ ws3 @ ''{'' @ body @ ''}'' @ post
              \<and> ws1 \<noteq> [] \<and> list_all is_space ws1 \<and> k \<noteq> [] \<and> list_all is_word k
              \<and> ws2 \<noteq> [] \<and> list_all is_space ws2 \<and> list_all is_space ws3
              \<and> body \<noteq> [] \<and> list_all (\<lambda>c. c \<noteq> CHR ''}'') body))
     \<and> ((\<forall>i<length content. content ! i = CHR ''{'' \<longrightarrow>
             Suc i < length content \<and> content ! Suc i = CHR ''}'')
          \<longrightarrow> interfaces self' = interfaces self \<and> structs self' = structs self)"
proof -
  let ?s = "scanned relpath file_path content self"
  have r: "analyze_file relpath fs file_path self = Inr ?s"
    using assms by (rule analyze_file_eq)
  have i: "interfaces ?s k \<noteq> interfaces self k \<Longrightarrow>
           (\<exists>pre ws1 ws2 ws3 body post.
              content = pre @ ''type'' @ ws1 @ k @ ws2 @ ''interface'' @ ws3 @ ''{'' @ body @ ''}'' @ post
              \<and> ws1 \<noteq> [] \<and> list_all is_space ws1 \<and> k \<noteq> [] \<and> list_all is_word k
              \<and> ws2 \<noteq> [] \<and> list_all is_space ws2 \<and> list_all is_space ws3
              \<and> body \<noteq> [] \<and> list_all (\<lambda>c. c \<noteq> CHR ''}'') body)" for k
  proof -
    assume "interfaces ?s k \<noteq> interfaces self k"
    then have "put_all (decls (decl_pat ''interface'') method_sig_pat content) (interfaces self) k
        \<noteq> interfaces self k"
      by (simp add: scanned_def decl_pats)
    then have "k \<in> fst ` set (decls (decl_pat ''interface'') method_sig_pat content)"
      by (rule put_all_changed)
    then show ?thesis by (rule declared_name_text)
  qed
  have s: "structs ?s k \<noteq> structs self k \<Longrightarrow>
           (\<exists>pre ws1 ws2 ws3 body post.
              content = pre @ ''type'' @ ws1 @ k @ ws2 @ ''struct'' @ ws3 @ ''{'' @ body @ ''}'' @ post
              \<and> ws1 \<noteq> [] \<and> list_all is_space ws1 \<and> k \<noteq> [] \<and> list_all is_word k
              \<and> ws2 \<noteq> [] \<and> list_all is_space ws2 \<and> list_all is_space ws3
              \<and> body \<noteq> [] \<and> list_all (\<lambda>c. c \<noteq> CHR ''}'') body)" for k
  proof -
    assume "structs ?s k \<noteq> structs self k"
    then have "put_all (decls (decl_pat ''struct'') field_pat content) (structs self) k
        \<noteq> structs self k"
      by (simp add: scanned_def decl_pats)
    then have "k \<in> fst ` set (decls (decl_pat ''struct'') field_pat content)"
      by (rule put_all_changed)
    then show ?thesis by (rule declared_name_text)
  qed
  have e: "interfaces ?s = interfaces self \<and> structs ?s = structs self"
    if closed: "\<forall>i<length content. content ! i = CHR ''{'' \<longrightarrow>
             Suc i < length content \<and> content ! Suc i = CHR ''}''"
  proof (rule conjI; rule ext; rule ccontr)
    fix k
    assume "interfaces ?s k \<noteq> interfaces self k"
    from i [OF this] obtain pre ws1 ws2 ws3 body post where
      "content = (pre @ ''type'' @ ws1 @ k @ ws2 @ ''interface'' @ ws3) @ ''{'' @ body @ (''}'' @ post)"
      "body \<noteq> []" "list_all (\<lambda>c. c \<noteq> CHR ''}'') body"
      by auto
    then show False using closed by (rule open_brace_body)
  next
    fix k
    assume "structs ?s k \<noteq> structs self k"
    from s [OF this] obtain pre ws1 ws2 ws3 body post where
      "content = (pre @ ''type'' @ ws1 @ k @ ws2 @ ''struct'' @ ws3) @ ''{'' @ body @ (''}'' @ post)"
      "body \<noteq> []" "list_all (\<lambda>c. c \<noteq> CHR ''}'') body"
      by auto
    then show False using closed by (rule open_brace_body)
  qed
  have I: "\<forall>k. interfaces ?s k \<noteq> interfaces self k \<longrightarrow>
           (\<exists>pre ws1 ws2 ws3 body post.
              content = pre @ ''type'' @ ws1 @ k @ ws2 @ ''interface'' @ ws3 @ ''{'' @ body @ ''}'' @ post
              \<and> ws1 \<noteq> [] \<and> list_all is_space ws1 \<and> k \<noteq> [] \<and> list_all is_word k
              \<and> ws2 \<noteq> [] \<and> list_all is_space ws2 \<and> list_all is_space ws3
              \<and> body \<noteq> [] \<and> list_all (\<lambda>c. c \<noteq> CHR ''}'') body)"
    by (intro allI impI) (rule i)
  have S: "\<forall>k. structs ?s k \<noteq> structs self k \<longrightarrow>
           (\<exists>pre ws1 ws2 ws3 body post.
              content = pre @ ''type'' @ ws1 @ k @ ws2 @ ''struct'' @ ws3 @ ''{'' @ body @ ''}'' @ post
              \<and> ws1 \<noteq> [] \<and> list_all is_space ws1 \<and> k \<noteq> [] \<and> list_all is_word k
              \<and> ws2 \<noteq> [] \<and> list_all is_space ws2 \<and> list_all is_space ws3
              \<and> body \<noteq> [] \<and> list_all (\<lambda>c. c \<noteq> CHR ''}'') body)"
    by (intro allI impI) (rule s)
  have E: "(\<forall>i<length content. content ! i = CHR ''{'' \<longrightarrow>
             Suc i < length content \<and> content ! Suc i = CHR ''}'')
          \<longrightarrow> interfaces ?s = interfaces self \<and> structs ?s = structs self"
    by (intro impI) (rule e)
  from r I S E show ?thesis
    by (intro exI [of _ ?s] conjI)
qed

theorem empty_body_not_recorded_witness:
  "\<exists>self'. analyze_file (\<lambda>p r. p) [''/r/a.go'' \<mapsto> ''type X interface {} type Y struct {}'']
       ''/r/a.go'' ((init ''/r'')\<lparr>interfaces := [''X'' \<mapsto> [''M'']]\<rparr>) = Inr self'
     \<and> interfaces self' = [''X'' \<mapsto> [''M'']] \<and> structs self' = Map.empty"
proof -
  let ?c = "''type X interface {} type Y struct {}''"
  let ?st = "(init ''/r'')\<lparr>interfaces := [''X'' \<mapsto> [''M'']]\<rparr>"
  have fs: "[''/r/a.go'' \<mapsto> ?c] ''/r/a.go'' = Some ?c" by simp
  obtain self' where r: "analyze_file (\<lambda>p r. p) [''/r/a.go'' \<mapsto> ?c] ''/r/a.go'' ?st = Inr self'"
    and e: "(\<forall>i<length ?c. ?c ! i = CHR ''{'' \<longrightarrow> Suc i < length ?c \<and> ?c ! Suc i = CHR ''}'')
          \<longrightarrow> interfaces self' = interfaces ?st \<and> structs self' = structs ?st"
    using empty_body_not_recorded [of "[''/r/a.go'' \<mapsto> ?c]" "''/r/a.go''" ?c "\<lambda>p r. p" ?st, OF fs]
    by (elim exE conjE)
  have "\<forall>i<length ?c. ?c ! i = CHR ''{'' \<longrightarrow> Suc i < length ?c \<and> ?c ! Suc i = CHR ''}''"
    unfolding all_less_list_all by (rule empty_bodies_text)
  with e have "interfaces self' = interfaces ?st \<and> structs self' = structs ?st" ..
  then have "interfaces self' = [''X'' \<mapsto> [''M'']]" "structs self' = Map.empty"
    by (simp_all add: init_def)
  with r show ?thesis by (intro exI [of _ self'] conjI)
qed

end
